theory Spec2Isabelle
  imports Main "HOL-Library.Word"
begin

unbundle bit_operations_syntax

section \<open>Machine types and memory\<close>

type_synonym u8 = "8 word"
type_synonym u16 = "16 word"
type_synonym u32 = "32 word"

text \<open>
  A \<^verbatim>\<open>uint8_t *\<close> argument is \<open>None\<close> for the null pointer and \<open>Some xs\<close> for a
  pointer to a buffer holding the bytes \<open>xs\<close>. An access outside the buffer (or through
  the null pointer) is undefined behaviour in C++; every function that can make one
  returns an \<open>option\<close>, and \<open>None\<close> is that fault.
\<close>

type_synonym buf = "u8 list option"

text \<open>The \<open>n\<close> bytes a \<^verbatim>\<open>write\<close> or \<^verbatim>\<open>memcpy\<close> reads from a pointer.\<close>

definition fetch :: "buf \<Rightarrow> nat \<Rightarrow> u8 list option" where
  "fetch p n =
     (if n = 0 then Some []
      else case p of
             None \<Rightarrow> None
           | Some xs \<Rightarrow> if n \<le> length xs then Some (take n xs) else None)"

text \<open>Memory of a local variable after \<^verbatim>\<open>readBytes\<close> has put \<open>got\<close> at its start.\<close>

definition fill :: "'a list \<Rightarrow> 'a list \<Rightarrow> 'a list" where
  "fill got old = got @ drop (length got) old"

text \<open>The buffer behind a pointer after \<^verbatim>\<open>readBytes\<close> has put \<open>got\<close> at its start.\<close>

definition store :: "buf \<Rightarrow> u8 list \<Rightarrow> buf option" where
  "store p got =
     (if got = [] then Some p
      else case p of
             None \<Rightarrow> None
           | Some xs \<Rightarrow> if length got \<le> length xs then Some (Some (fill got xs)) else None)"

text \<open>
  Modelled from the spec: the declarations of \<^verbatim>\<open>jbdbms.h\<close>, which is not among the
  sources. The request header is the first four bytes of the request frame of section 6,
  \<^verbatim>\<open>[start][opcode][register][length]\<close>; the source initialises it as
  \<^verbatim>\<open>{ 0, READ, STATUS, 0 }\<close> and names the register byte \<^verbatim>\<open>command\<close>. The response
  header is the first three bytes of the response frame, \<^verbatim>\<open>[start][status][length]\<close>;
  the source names the status byte \<^verbatim>\<open>returncode\<close>.
\<close>

record request_header_t =
  rq_start :: u8
  rq_type :: u8
  rq_command :: u8
  rq_length :: u8

record response_header_t =
  rs_start :: u8
  rs_returncode :: u8
  rs_length :: u8

definition request_header_bytes :: "request_header_t \<Rightarrow> u8 list" where
  "request_header_bytes h = [rq_start h, rq_type h, rq_command h, rq_length h]"

fun response_header_of :: "u8 list \<Rightarrow> response_header_t" where
  "response_header_of (a # b # c # _) =
     \<lparr>rs_start = a, rs_returncode = b, rs_length = c\<rparr>"
| "response_header_of _ = \<lparr>rs_start = 0, rs_returncode = 0, rs_length = 0\<rparr>"

text \<open>
  Modelled from the spec: the protocol constants of \<^verbatim>\<open>jbdbms.h\<close> (opcodes, register
  selectors and the mask of the defined MOSFET bits), whose values the spec leaves open.
  They are parameters of every operation that uses them.
\<close>

record protocol =
  READ :: u8
  WRITE :: u8
  STATUS :: u8
  CELLS :: u8
  HARDWARE :: u8
  MOSFET :: u8
  MOSFET_BOTH :: u8

text \<open>
  Modelled from the spec: a 16-bit value occupies two bytes of memory, low byte first
  (section 4.2: the checksum is serialised in wire order, low byte first).
\<close>

definition u16_bytes :: "u16 \<Rightarrow> u8 list" where
  "u16_bytes w = [ucast w, ucast (drop_bit 8 w)]"

fun u16_of_bytes :: "u8 list \<Rightarrow> u16" where
  "u16_of_bytes (lo # hi # _) = ucast lo OR push_bit 8 (ucast hi)"
| "u16_of_bytes _ = 0"

section \<open>Checksum\<close>

text \<open>
  Modelled from the spec: \<^verbatim>\<open>swap\<close> is declared in \<^verbatim>\<open>jbdbms.h\<close>; section 4.1 says it
  byte-swaps the 16-bit value. The source uses it on a value (\<^verbatim>\<open>return swap(&crc)\<close>)
  and in place on the fields of a record.
\<close>

definition swap :: "u16 \<Rightarrow> u16" where
  "swap d = push_bit 8 d OR drop_bit 8 d"

text \<open>\<^verbatim>\<open>while( len-- ) { crc -= *(data++); }\<close>\<close>

fun crc_loop :: "nat \<Rightarrow> u8 list \<Rightarrow> u16 \<Rightarrow> u16 option" where
  "crc_loop 0 data crc = Some crc"
| "crc_loop (Suc len) [] crc = None"
| "crc_loop (Suc len) (d # data) crc = crc_loop len data (crc - ucast d)"

definition genCrc :: "u8 \<Rightarrow> u8 \<Rightarrow> buf \<Rightarrow> u16 option" where
  "genCrc byte len data =
     (if len < 31 \<and> (len = 0 \<or> data \<noteq> None)
      then map_option swap
             (crc_loop (unat len) (case data of None \<Rightarrow> [] | Some xs \<Rightarrow> xs)
                (0 - ucast byte - ucast len))
      else Some (swap 0))"

definition genRequestCrc :: "request_header_t \<Rightarrow> buf \<Rightarrow> u16 option" where
  "genRequestCrc header data = genCrc (rq_command header) (rq_length header) data"

definition genResponseCrc :: "response_header_t \<Rightarrow> buf \<Rightarrow> u16 option" where
  "genResponseCrc header data = genCrc (rs_returncode header) (rs_length header) data"

definition isValid :: "response_header_t \<Rightarrow> buf \<Rightarrow> u16 \<Rightarrow> bool option" where
  "isValid header data crc = map_option (\<lambda>c. c = crc) (genResponseCrc header data)"

text \<open>
  \<^verbatim>\<open>prepareCmd\<close> sets the start marker in the caller's header and the caller's
  \<^verbatim>\<open>crc\<close>; the result is the returned flag with both.
\<close>

definition prepareCmd ::
  "request_header_t \<Rightarrow> buf \<Rightarrow> (bool \<times> request_header_t \<times> u16) option" where
  "prepareCmd header data =
     (let header' = header\<lparr>rq_start := 0xdd\<rparr> in
      map_option (\<lambda>crc. (crc \<noteq> 0, header', crc)) (genRequestCrc header' data))"

text \<open>
  The checksum in the words of section 4.1 of the spec, for comparison with \<open>genCrc\<close>:
  start at 0, subtract the seed byte, subtract the length, subtract each payload byte in
  order in a 16-bit accumulator that wraps, and byte-swap the result. It is the sum alone,
  without the bound on the length.
\<close>

definition spec_checksum :: "u8 \<Rightarrow> u8 \<Rightarrow> u8 list \<Rightarrow> u16" where
  "spec_checksum seedByte len payload =
     swap (foldl (\<lambda>acc x. acc - ucast x) (0 - ucast seedByte - ucast len) payload)"

section \<open>The engine and its collaborators\<close>

text \<open>
  What one transaction does to the outside, in order: \<^verbatim>\<open>delay(ms)\<close>,
  \<^verbatim>\<open>digitalWrite(pin, level)\<close> (\<open>True\<close> is \<^verbatim>\<open>HIGH\<close>), \<^verbatim>\<open>flush()\<close>,
  \<^verbatim>\<open>write\<close> (the bytes offered and the count the stream accepted),
  \<^verbatim>\<open>readBytes\<close> (the count asked for and the bytes obtained) and the frame
  observer with the bytes handed to it.
\<close>

datatype event =
    Delay u32
  | DigitalWrite int bool
  | Flush
  | Write "u8 list" nat
  | ReadBytes nat "u8 list"
  | SerialCb "u8 list"

text \<open>
  The members of \<^verbatim>\<open>JbdBms\<close> that \<^verbatim>\<open>execute\<close> uses, and the collaborators of
  section 6 as explicit state: \<open>m_prev\<close> is the cell \<^verbatim>\<open>*_prev\<close>, \<open>m_serial_cb\<close>
  says whether a frame observer is set, \<open>millis\<close> is the clock reading, \<open>rx\<close> the
  bytes the stream will yield to \<^verbatim>\<open>readBytes\<close>, \<open>tx_room\<close> the number of bytes
  the stream will still accept from \<^verbatim>\<open>write\<close>, and \<open>trace\<close> the events so far.
  \<^verbatim>\<open>delay(ms)\<close> moves the clock on by \<open>ms\<close>; the calls on the stream and the pin are
  taken to cost no time.
\<close>

record bms =
  m_delay :: u8
  m_dir_pin :: int
  m_serial_cb :: bool
  m_prev :: u32
  millis :: u32
  rx :: "u8 list"
  tx_room :: nat
  trace :: "event list"

definition log_event :: "event \<Rightarrow> bms \<Rightarrow> bms" where
  "log_event e s = s\<lparr>trace := trace s @ [e]\<rparr>"

definition delay :: "u32 \<Rightarrow> bms \<Rightarrow> bms" where
  "delay ms s = log_event (Delay ms) (s\<lparr>millis := millis s + ms\<rparr>)"

definition digitalWrite :: "int \<Rightarrow> bool \<Rightarrow> bms \<Rightarrow> bms" where
  "digitalWrite pin level s = log_event (DigitalWrite pin level) s"

definition serial_flush :: "bms \<Rightarrow> bms" where
  "serial_flush s = log_event Flush s"

text \<open>\<^verbatim>\<open>write\<close> returns the number of bytes accepted, which may fall short.\<close>

definition serial_write :: "u8 list \<Rightarrow> bms \<Rightarrow> nat \<times> bms" where
  "serial_write bytes s =
     (let k = min (length bytes) (tx_room s)
      in (k, log_event (Write bytes k) (s\<lparr>tx_room := tx_room s - k\<rparr>)))"

text \<open>\<^verbatim>\<open>readBytes\<close> returns the bytes obtained, fewer than asked when the stream ends.\<close>

definition serial_readBytes :: "nat \<Rightarrow> bms \<Rightarrow> u8 list \<times> bms" where
  "serial_readBytes n s =
     (let got = take n (rx s)
      in (got, log_event (ReadBytes n got) (s\<lparr>rx := drop n (rx s)\<rparr>)))"

text \<open>Lines 46 to 49: the pacing delay, in unsigned 32-bit arithmetic.\<close>

definition pace :: "bms \<Rightarrow> bms" where
  "pace s =
     (let remaining = ucast (m_delay s) - (millis s - m_prev s)
      in if remaining \<le> ucast (m_delay s) then delay remaining s else s)"

text \<open>
  Lines 51 to 64: direction pin, flush, the four writes joined by \<^verbatim>\<open>&&\<close> (a short
  write skips the writes after it), flush, direction pin.
\<close>

definition write_frame ::
  "request_header_t \<Rightarrow> buf \<Rightarrow> u16 \<Rightarrow> u8 \<Rightarrow> bms \<Rightarrow> (bool \<times> bms) option" where
  "write_frame header command crc stop s =
     (case serial_write (request_header_bytes header) s of (n1, s1) \<Rightarrow>
      if n1 \<noteq> 4 then Some (False, s1)
      else case fetch command (unat (rq_length header)) of
             None \<Rightarrow> None
           | Some bytes \<Rightarrow>
               (case serial_write bytes s1 of (n2, s2) \<Rightarrow>
                if n2 \<noteq> unat (rq_length header) then Some (False, s2)
                else case serial_write (u16_bytes crc) s2 of (n3, s3) \<Rightarrow>
                  if n3 \<noteq> 2 then Some (False, s3)
                  else case serial_write [stop] s3 of (n4, s4) \<Rightarrow> Some (n4 = 1, s4)))"

definition transmit ::
  "request_header_t \<Rightarrow> buf \<Rightarrow> u16 \<Rightarrow> u8 \<Rightarrow> bms \<Rightarrow> (bool \<times> bms) option" where
  "transmit header command crc stop s =
     (let s1 = (if 0 \<le> m_dir_pin s then digitalWrite (m_dir_pin s) True s else s);
          s2 = serial_flush s1
      in case write_frame header command crc stop s2 of
           None \<Rightarrow> None
         | Some (rc, s3) \<Rightarrow>
             (let s4 = serial_flush s3;
                  s5 = (if 0 \<le> m_dir_pin s4 then digitalWrite (m_dir_pin s4) False s4 else s4)
              in Some (rc, s5)))"

text \<open>
  The locals of the receive block after it ran: the memory of the response header, of
  \<^verbatim>\<open>crc\<close> and of \<^verbatim>\<open>stop\<close>, and the result buffer.
\<close>

record received =
  rc_ok :: bool
  rc_header :: "u8 list"
  rc_result :: buf
  rc_crc :: "u8 list"
  rc_stop :: "u8 list"

text \<open>
  Lines 71 to 74: the checksum and the stop byte are read, then the checksum is checked and
  the return code compared with 0.
\<close>

definition receive_tail ::
  "u8 list \<Rightarrow> buf \<Rightarrow> u8 list \<Rightarrow> u8 list \<Rightarrow> bms \<Rightarrow> (received \<times> bms) option" where
  "receive_tail hb result crcb stopb s =
     (let header = response_header_of hb in
      case serial_readBytes 2 s of (g3, s3) \<Rightarrow>
      let crcb' = fill g3 crcb in
      if length g3 \<noteq> 2
      then Some (\<lparr>rc_ok = False, rc_header = hb, rc_result = result,
                  rc_crc = crcb', rc_stop = stopb\<rparr>, s3)
      else case serial_readBytes 1 s3 of (g4, s4) \<Rightarrow>
      let stopb' = fill g4 stopb in
      if length g4 \<noteq> 1
      then Some (\<lparr>rc_ok = False, rc_header = hb, rc_result = result,
                  rc_crc = crcb', rc_stop = stopb'\<rparr>, s4)
      else case isValid header result (u16_of_bytes crcb') of
             None \<Rightarrow> None
           | Some valid \<Rightarrow>
               Some (\<lparr>rc_ok = (valid \<and> rs_returncode header = 0), rc_header = hb,
                      rc_result = result, rc_crc = crcb', rc_stop = stopb'\<rparr>, s4))"

text \<open>
  Lines 67 to 74: the response header starts as zeros; each \<^verbatim>\<open>readBytes\<close> puts what it
  obtained at the start of its target; the first conjunct that fails ends the chain.
\<close>

definition receive :: "buf \<Rightarrow> u16 \<Rightarrow> u8 \<Rightarrow> bms \<Rightarrow> (received \<times> bms) option" where
  "receive result crc stop s =
     (case serial_readBytes 3 s of (g1, s1) \<Rightarrow>
      let hb = fill g1 [0, 0, 0];
          header = response_header_of hb;
          crcb = u16_bytes crc;
          stopb = [stop];
          failed = (\<lambda>r. \<lparr>rc_ok = False, rc_header = hb, rc_result = r,
                          rc_crc = crcb, rc_stop = stopb\<rparr>)
      in
      if length g1 \<noteq> 3 then Some (failed result, s1)
      else if \<not> (rs_start header = 0xdd \<and> rs_length header \<le> 64)
      then Some (failed result, s1)
      else if rs_length header = 0 then receive_tail hb result crcb stopb s1
      else if result = None then Some (failed result, s1)
      else case serial_readBytes (unat (rs_length header)) s1 of (g2, s2) \<Rightarrow>
        (case store result g2 of
           None \<Rightarrow> None
         | Some result' \<Rightarrow>
             if length g2 \<noteq> unat (rs_length header) then Some (failed result', s2)
             else receive_tail hb result' crcb stopb s2))"

text \<open>
  Lines 76 to 84: the frame observer gets header, \<^verbatim>\<open>header.length\<close> bytes of the result
  buffer, checksum and stop byte (\<^verbatim>\<open>malloc\<close> is taken to succeed).
\<close>

definition notify :: "received \<Rightarrow> bms \<Rightarrow> bms option" where
  "notify r s =
     (if m_serial_cb s
      then case fetch (rc_result r) (unat (rs_length (response_header_of (rc_header r)))) of
             None \<Rightarrow> None
           | Some payload \<Rightarrow>
               Some (log_event (SerialCb (rc_header r @ payload @ rc_crc r @ rc_stop r)) s)
      else Some s)"

text \<open>
  \<^verbatim>\<open>execute\<close> returns the flag, the result buffer as the transaction left it and the
  new state.
\<close>

definition execute ::
  "request_header_t \<Rightarrow> buf \<Rightarrow> buf \<Rightarrow> bms \<Rightarrow> (bool \<times> buf \<times> bms) option" where
  "execute header command result s =
     (case prepareCmd header command of
        None \<Rightarrow> None
      | Some (ok, header', crc) \<Rightarrow>
          if \<not> ok then Some (False, result, s)
          else case transmit header' command crc 0x77 (pace s) of
                 None \<Rightarrow> None
               | Some (rc, s1) \<Rightarrow>
                   if rc
                   then case receive result crc 0x77 s1 of
                          None \<Rightarrow> None
                        | Some (r, s2) \<Rightarrow>
                            (case notify r s2 of
                               None \<Rightarrow> None
                             | Some s3 \<Rightarrow>
                                 Some (rc_ok r, rc_result r, s3\<lparr>m_prev := millis s3\<rparr>))
                   else Some (False, result, s1\<lparr>m_prev := millis s1\<rparr>))"

section \<open>Public operations\<close>

text \<open>
  \<^verbatim>\<open>swap(&field)\<close> on a 16-bit field at byte offset \<open>i\<close> of a record's memory
  exchanges the two bytes of the field.
\<close>

definition swap_field :: "nat \<Rightarrow> u8 list \<Rightarrow> u8 list option" where
  "swap_field i d =
     (if i + 1 < length d then Some (d[i := d ! (i + 1), i + 1 := d ! i]) else None)"

fun swap_fields :: "nat list \<Rightarrow> u8 list \<Rightarrow> u8 list option" where
  "swap_fields [] d = Some d"
| "swap_fields (i # offs) d =
     (case swap_field i d of None \<Rightarrow> None | Some d' \<Rightarrow> swap_fields offs d')"

text \<open>
  Modelled from the spec: the layout of \<^verbatim>\<open>Status_t\<close> (declared in \<^verbatim>\<open>jbdbms.h\<close>).
  The record begins with the nine 16-bit fields in the order of section 3, which is the
  order of the \<^verbatim>\<open>swap\<close> calls: voltage, current, remainingCapacity, nominalCapacity,
  cycles, productionDate, balanceLow, balanceHigh, fault; the single-byte fields follow.
\<close>

definition Status_fields :: "nat list" where
  "Status_fields = [0, 2, 4, 6, 8, 10, 12, 14, 16]"

text \<open>
  \<^verbatim>\<open>getStatus\<close> is given the memory of the caller's record; it returns the flag, the
  memory afterwards and the new state.
\<close>

definition getStatus :: "protocol \<Rightarrow> u8 list \<Rightarrow> bms \<Rightarrow> (bool \<times> u8 list \<times> bms) option" where
  "getStatus p data s =
     (let header = \<lparr>rq_start = 0, rq_type = READ p, rq_command = STATUS p, rq_length = 0\<rparr>
      in case execute header None (Some data) s of
           None \<Rightarrow> None
         | Some (rc, None, s') \<Rightarrow> None
         | Some (rc, Some d, s') \<Rightarrow>
             map_option (\<lambda>d'. (rc, d', s')) (swap_fields Status_fields d))"

text \<open>
  Modelled from the spec: \<^verbatim>\<open>Cells_t\<close> (declared in \<^verbatim>\<open>jbdbms.h\<close>) is the array
  \<^verbatim>\<open>voltages\<close> of 16-bit values; its element count is the size of the record's memory
  divided by two.
\<close>

definition getCells :: "protocol \<Rightarrow> u8 list \<Rightarrow> bms \<Rightarrow> (bool \<times> u8 list \<times> bms) option" where
  "getCells p data s =
     (let header = \<lparr>rq_start = 0, rq_type = READ p, rq_command = CELLS p, rq_length = 0\<rparr>
      in case execute header None (Some data) s of
           None \<Rightarrow> None
         | Some (rc, None, s') \<Rightarrow> None
         | Some (rc, Some d, s') \<Rightarrow>
             map_option (\<lambda>d'. (rc, d', s'))
               (swap_fields (map (\<lambda>i. 2 * i) [0..<length data div 2]) d))"

definition getHardware :: "protocol \<Rightarrow> u8 list \<Rightarrow> bms \<Rightarrow> (bool \<times> u8 list \<times> bms) option" where
  "getHardware p data s =
     (let header = \<lparr>rq_start = 0, rq_type = READ p, rq_command = HARDWARE p, rq_length = 0\<rparr>
      in case execute header None (Some data) s of
           None \<Rightarrow> None
         | Some (rc, None, s') \<Rightarrow> None
         | Some (rc, Some d, s') \<Rightarrow> Some (rc, d, s'))"

text \<open>
  Modelled from the spec: \<^verbatim>\<open>mosfet_t\<close> (declared in \<^verbatim>\<open>jbdbms.h\<close>) is a small
  enumeration; a switch state is the byte of its value.
\<close>

definition setMosfetStatus :: "protocol \<Rightarrow> u8 \<Rightarrow> bms \<Rightarrow> (bool \<times> bms) option" where
  "setMosfetStatus p status s =
     (let header = \<lparr>rq_start = 0, rq_type = WRITE p, rq_command = MOSFET p, rq_length = 2\<rparr>;
          status_inv = NOT status AND MOSFET_BOTH p;
          mosfetStatus = [0, status_inv]
      in map_option (\<lambda>(rc, r, s'). (rc, s')) (execute header (Some mosfetStatus) None s))"

section \<open>Balance string\<close>

text \<open>
  Modelled from the spec: the fields of \<^verbatim>\<open>Status_t\<close> as section 3 lists them
  (\<open>current\<close> is read as a signed value).
\<close>

record Status_t =
  voltage :: u16
  current :: u16
  remainingCapacity :: u16
  nominalCapacity :: u16
  cycles :: u16
  productionDate :: u16
  balanceLow :: u16
  balanceHigh :: u16
  fault :: u16
  cells :: u8

text \<open>\<^verbatim>\<open>while(cell--) { *(balancePtr++) = (balanceBits & 1) ? '1' : '0'; balanceBits >>= 1; }\<close>\<close>

fun balance_loop :: "nat \<Rightarrow> u32 \<Rightarrow> char list" where
  "balance_loop 0 balanceBits = []"
| "balance_loop (Suc cell) balanceBits =
     (if balanceBits AND 1 \<noteq> 0 then CHR ''1'' else CHR ''0'')
       # balance_loop cell (drop_bit 1 balanceBits)"

text \<open>
  \<^verbatim>\<open>balance\<close> writes into the static \<^verbatim>\<open>char balanceStr[33]\<close> and returns a pointer
  to it: the result is the new content of the buffer, given the old one.
\<close>

definition balance :: "Status_t \<Rightarrow> char list \<Rightarrow> char list" where
  "balance data balanceStr =
     (let balanceBits = (push_bit 16 (ucast (balanceHigh data)) OR ucast (balanceLow data) :: u32);
          cell = (if unat (cells data) < 33 then unat (cells data) else 33 - 1)
      in fill (balance_loop cell balanceBits @ [CHR 0x00]) balanceStr)"

text \<open>The C string a \<^verbatim>\<open>const char *\<close> denotes: the characters before the first NUL.\<close>

definition c_str :: "char list \<Rightarrow> string" where
  "c_str b = takeWhile (\<lambda>c. c \<noteq> CHR 0x00) b"

section \<open>Observations on a trace\<close>

text \<open>The durations of the \<^verbatim>\<open>delay\<close> calls in a trace, and the milliseconds they add up to.\<close>

fun delays :: "event list \<Rightarrow> u32 list" where
  "delays [] = []"
| "delays (Delay ms # es) = ms # delays es"
| "delays (e # es) = delays es"

definition slept :: "event list \<Rightarrow> nat" where
  "slept es = sum_list (map unat (delays es))"

section \<open>Example inputs\<close>

text \<open>
  A link 3 ms after its last transaction, with a minimum delay of 8 ms, a direction pin
  and a frame observer, whose stream holds the six bytes of an empty response.
\<close>

definition link3 :: bms where
  "link3 = \<lparr>m_delay = 8, m_dir_pin = 4, m_serial_cb = True, m_prev = 100, millis = 103,
             rx = [0xdd, 0, 0, 0, 0, 0x77], tx_room = 64, trace = []\<rparr>"

text \<open>A request of 31 payload bytes, one more than the checksum accepts.\<close>

definition long_request :: request_header_t where
  "long_request = \<lparr>rq_start = 0, rq_type = 0x5a, rq_command = 0xe1, rq_length = 31\<rparr>"

text \<open>A read request for register 3 without payload.\<close>

definition read_request :: request_header_t where
  "read_request = \<lparr>rq_start = 0, rq_type = 0xa5, rq_command = 3, rq_length = 0\<rparr>"

text \<open>
  The same link when the device answers with status 0 and the two payload bytes
  \<open>0x11 0x22\<close>, and when the answer stops after the first payload byte.
\<close>

definition link_reply :: bms where
  "link_reply = link3\<lparr>rx := [0xdd, 0, 2, 0x11, 0x22, 0xff, 0xcb, 0x77]\<rparr>"

definition link_short :: bms where
  "link_short = link3\<lparr>rx := [0xdd, 0, 2, 0x11]\<rparr>"

text \<open>
  The same link when the device answers with status 0 and 32 payload bytes: once 32 bytes
  \<open>0x01\<close> followed by their checksum \<open>FF C0\<close>, once 32 bytes \<open>0x5A\<close> followed by
  \<open>00 00\<close>.
\<close>

definition link_long :: bms where
  "link_long = link3\<lparr>rx := [0xdd, 0, 32] @ replicate 32 0x01 @ [0xff, 0xc0, 0x77]\<rparr>"

definition link_junk :: bms where
  "link_junk = link3\<lparr>rx := [0xdd, 0, 32] @ replicate 32 0x5a @ [0x00, 0x00, 0x77]\<rparr>"

text \<open>Values for the protocol constants, and the memory of a 20-byte status record.\<close>

definition example_protocol :: protocol where
  "example_protocol = \<lparr>READ = 0xa5, WRITE = 0x5a, STATUS = 3, CELLS = 4, HARDWARE = 5,
                         MOSFET = 0xe1, MOSFET_BOTH = 3\<rparr>"

definition example_record :: "u8 list" where
  "example_record = [1, 2, 3, 4, 5, 6, 7, 8, 9, 10, 11, 12, 13, 14, 15, 16, 17, 18, 19, 20]"

section \<open>Properties\<close>

subsection \<open>The checksum as a modular sum\<close>

lemma crc_loop_sum:
  "n \<le> length xs \<Longrightarrow>
     crc_loop n xs crc = Some (crc - sum_list (map ucast (take n xs)))"
proof (induction n xs crc rule: crc_loop.induct)
  case (1 data crc)
  show ?case by simp
next
  case (2 len crc)
  then show ?case by simp
next
  case (3 len d data crc)
  then show ?case by (simp add: diff_diff_eq)
qed


lemma ucast_via_int: "(ucast (x :: u8) :: u16) = word_of_int (uint x)"
  by (rule ucast_eq)

lemma sum_list_ucast_uint:
  "sum_list (map ucast xs) = (word_of_int (sum_list (map uint (xs :: u8 list))) :: u16)"
proof (induction xs)
  case Nil
  show ?case by simp
next
  case (Cons x xs)
  have "sum_list (map ucast (x # xs)) = (ucast x + sum_list (map ucast xs) :: u16)" by simp
  also have "\<dots> = word_of_int (uint x) + word_of_int (sum_list (map uint xs))"
    by (simp only: Cons.IH ucast_via_int)
  also have "\<dots> = word_of_int (uint x + sum_list (map uint xs))"
    by (simp only: wi_hom_add)
  finally show ?case by simp
qed


lemma swap_zero: "swap 0 = 0"
  by (simp add: swap_def)

lemma crc_acc_int:
  "(0 - ucast (b :: u8) - ucast (len :: u8) - sum_list (map ucast (payload :: u8 list)) :: u16)
     = word_of_int (0 - uint b - uint len - sum_list (map uint payload))"
proof -
  have "(word_of_int (0 - uint b - uint len - sum_list (map uint payload)) :: u16)
      = 0 - word_of_int (uint b) - word_of_int (uint len)
          - word_of_int (sum_list (map uint payload))"
    by (simp only: wi_hom_sub [symmetric] word_of_int_0)
  then show ?thesis
    by (simp only: sum_list_ucast_uint ucast_via_int)
qed

text \<open>
  C1. For every seed byte, every length below 31 and every payload of exactly that many
  bytes (through a null pointer too when the length is 0), \<open>genCrc\<close> returns the byte
  swap of \<open>0 - seed - length - sum of the payload bytes\<close> taken modulo \<open>2 ^ 16\<close>
  (\<open>word_of_int\<close> into a 16-bit word is reduction modulo \<open>2 ^ 16\<close>). \<open>genCrc\<close> is a
  function of its three arguments alone, so equal inputs give equal outputs.
\<close>

theorem genCrc_modular_sum:
  assumes "len < 31" and "length payload = unat len"
  shows "genCrc b len (Some payload) =
           Some (swap (word_of_int
             (0 - uint b - uint len - sum_list (map uint payload))))
       \<and> (len = 0 \<longrightarrow>
            genCrc b len None = Some (swap (word_of_int (0 - uint b - uint len))))"
proof -
  have "crc_loop (unat len) payload (0 - ucast b - ucast len)
          = Some (0 - ucast b - ucast len - sum_list (map ucast payload))"
    using assms(2) by (simp add: crc_loop_sum)
  then have "genCrc b len (Some payload) =
           Some (swap (0 - ucast b - ucast len - sum_list (map ucast payload)))"
    using assms(1) by (simp add: genCrc_def)
  then have A: "genCrc b len (Some payload) =
           Some (swap (word_of_int
             (0 - uint b - uint len - sum_list (map uint payload))))"
    by (simp only: crc_acc_int)
  have B: "genCrc b len None = Some (swap (word_of_int (0 - uint b - uint len)))"
    if "len = 0"
  proof -
    have "(0 - ucast b - ucast len :: u16) = word_of_int (0 - uint b - uint len)"
      using crc_acc_int [of b len "[]"] by (simp only: list.map sum_list.Nil diff_zero)
    moreover have "genCrc b len None = Some (swap (0 - ucast b - ucast len))"
      using that by (simp add: genCrc_def)
    ultimately show ?thesis by (simp only:)
  qed
  from A B show ?thesis by blast
qed

theorem genCrc_modular_sum_witness:
  "(3 :: u8) < 31 \<and> length [0x10, 0x20, 0xff :: u8] = unat (3 :: u8)
   \<and> genCrc 0x03 3 (Some [0x10, 0x20, 0xff]) = Some 0xcbfe
   \<and> genCrc 0x03 0 None = Some 0xfdff"
proof -
  have h1: "(3 :: u8) < 31" by simp
  have h2: "length [0x10, 0x20, 0xff :: u8] = unat (3 :: u8)" by simp
  have h3: "length ([] :: u8 list) = unat (0 :: u8)" by simp
  have "genCrc 0x03 3 (Some [0x10, 0x20, 0xff]) = Some 0xcbfe"
    using genCrc_modular_sum [OF h1 h2, of 3] by (simp add: swap_def)
  moreover have "genCrc 0x03 0 None = Some 0xfdff"
    using genCrc_modular_sum [of 0 "[]" 3] by (simp add: swap_def)
  ultimately show ?thesis using h1 h2 by blast
qed

subsection \<open>Refused requests and the checksum round trip\<close>

lemma genCrc_refused:
  "31 \<le> len \<or> (0 < len \<and> data = None) \<Longrightarrow> genCrc b len data = Some 0"
  by (auto simp: genCrc_def swap_zero not_less word_greater_zero_iff)

text \<open>
  C6. For every request whose length is 31 or more, or whose length is above 0 with a
  null payload pointer, \<open>genCrc\<close> returns the sentinel 0 (for every seed byte),
  \<open>prepareCmd\<close> reports failure, and \<open>execute\<close> returns false leaving the whole state
  as it was: nothing is written or read, no pin is driven, no event is added to the trace.
\<close>

theorem refused_request_touches_nothing:
  assumes "31 \<le> rq_length header \<or> (0 < rq_length header \<and> command = None)"
  shows "genCrc b (rq_length header) command = Some 0
       \<and> prepareCmd header command = Some (False, header\<lparr>rq_start := 0xdd\<rparr>, 0)
       \<and> execute header command result s = Some (False, result, s)"
proof -
  have g: "genCrc b (rq_length header) command = Some 0" for b
    using assms by (rule genCrc_refused)
  then have p: "prepareCmd header command = Some (False, header\<lparr>rq_start := 0xdd\<rparr>, 0)"
    by (simp add: prepareCmd_def genRequestCrc_def)
  then have "execute header command result s = Some (False, result, s)"
    by (simp add: execute_def)
  with g p show ?thesis by blast
qed

theorem refused_request_touches_nothing_witness:
  "genCrc 0xa5 31 (Some (replicate 31 0x01)) = Some 0
   \<and> execute \<lparr>rq_start = 0, rq_type = 0x5a, rq_command = 0xe1, rq_length = 31\<rparr>
        (Some (replicate 31 0x01)) None
        \<lparr>m_delay = 8, m_dir_pin = 4, m_serial_cb = True, m_prev = 100, millis = 103,
         rx = [0xdd, 0, 0, 0, 0, 0x77], tx_room = 64, trace = []\<rparr>
     = Some (False, None,
        \<lparr>m_delay = 8, m_dir_pin = 4, m_serial_cb = True, m_prev = 100, millis = 103,
         rx = [0xdd, 0, 0, 0, 0, 0x77], tx_room = 64, trace = []\<rparr>)
   \<and> execute \<lparr>rq_start = 0, rq_type = 0x5a, rq_command = 0xe1, rq_length = 2\<rparr>
        None None
        \<lparr>m_delay = 8, m_dir_pin = 4, m_serial_cb = True, m_prev = 100, millis = 103,
         rx = [0xdd, 0, 0, 0, 0, 0x77], tx_room = 64, trace = []\<rparr>
     = Some (False, None,
        \<lparr>m_delay = 8, m_dir_pin = 4, m_serial_cb = True, m_prev = 100, millis = 103,
         rx = [0xdd, 0, 0, 0, 0, 0x77], tx_room = 64, trace = []\<rparr>)"
  using refused_request_touches_nothing
          [of "\<lparr>rq_start = 0, rq_type = 0x5a, rq_command = 0xe1, rq_length = 31\<rparr>"
              "Some (replicate 31 0x01)" "0xa5" None]
        refused_request_touches_nothing
          [of "\<lparr>rq_start = 0, rq_type = 0x5a, rq_command = 0xe1, rq_length = 2\<rparr>"
              None "0xa5" None]
  by simp

text \<open>
  C7. For every valid request (any seed byte, length below 31, a payload of exactly that
  many bytes, or a null pointer when the length is 0), \<open>prepareCmd\<close> stores a checksum
  that \<open>isValid\<close> accepts over the same seed byte, length and payload.
\<close>

theorem prepareCmd_isValid_roundtrip:
  assumes "rq_length header < 31"
    and "case data of None \<Rightarrow> rq_length header = 0
                    | Some payload \<Rightarrow> length payload = unat (rq_length header)"
  shows "\<exists>ok crc. prepareCmd header data = Some (ok, header\<lparr>rq_start := 0xdd\<rparr>, crc)
           \<and> isValid \<lparr>rs_start = 0xdd, rs_returncode = rq_command header,
                       rs_length = rq_length header\<rparr> data crc = Some True"
proof -
  obtain c where c: "genCrc (rq_command header) (rq_length header) data = Some c"
  proof (cases data)
    case None
    with assms(2) have "rq_length header = 0" by simp
    with None that show ?thesis by (simp add: genCrc_def)
  next
    case (Some payload)
    with assms(2) have "length payload = unat (rq_length header)" by simp
    with Some assms(1) that show ?thesis by (simp add: genCrc_def crc_loop_sum)
  qed
  then have "prepareCmd header data = Some (c \<noteq> 0, header\<lparr>rq_start := 0xdd\<rparr>, c)"
    by (simp add: prepareCmd_def genRequestCrc_def)
  moreover from c have "isValid \<lparr>rs_start = 0xdd, rs_returncode = rq_command header,
                       rs_length = rq_length header\<rparr> data c = Some True"
    by (simp add: isValid_def genResponseCrc_def)
  ultimately show ?thesis by blast
qed

theorem prepareCmd_isValid_roundtrip_witness:
  "prepareCmd \<lparr>rq_start = 0, rq_type = 0x5a, rq_command = 0xe1, rq_length = 2\<rparr>
      (Some [0, 2])
     = Some (True, \<lparr>rq_start = 0xdd, rq_type = 0x5a, rq_command = 0xe1, rq_length = 2\<rparr>, 0x1bff)
   \<and> isValid \<lparr>rs_start = 0xdd, rs_returncode = 0xe1, rs_length = 2\<rparr> (Some [0, 2]) 0x1bff
     = Some True"
proof -
  have h1: "rq_length \<lparr>rq_start = 0, rq_type = 0x5a, rq_command = 0xe1, rq_length = 2\<rparr> < 31"
    by simp
  have h2: "case Some [0, 2 :: u8] of
              None \<Rightarrow> rq_length \<lparr>rq_start = 0, rq_type = 0x5a, rq_command = 0xe1, rq_length = 2\<rparr> = 0
            | Some payload \<Rightarrow> length payload
                = unat (rq_length \<lparr>rq_start = 0, rq_type = 0x5a, rq_command = 0xe1, rq_length = 2\<rparr>)"
    by simp
  have p: "prepareCmd \<lparr>rq_start = 0, rq_type = 0x5a, rq_command = 0xe1, rq_length = 2\<rparr>
      (Some [0, 2])
     = Some (True, \<lparr>rq_start = 0xdd, rq_type = 0x5a, rq_command = 0xe1, rq_length = 2\<rparr>, 0x1bff)"
    by (simp add: prepareCmd_def genRequestCrc_def genCrc_def swap_def crc_loop_sum)
  from prepareCmd_isValid_roundtrip [OF h1 h2] p show ?thesis by simp
qed

subsection \<open>The balance string\<close>

lemma balance_loop_bits:
  "balance_loop n bits = map (\<lambda>i. if bit bits i then CHR ''1'' else CHR ''0'') [0..<n]"
proof (induction n arbitrary: bits)
  case 0
  show ?case by simp
next
  case (Suc n)
  have low: "(bits AND 1 \<noteq> 0) = bit bits 0"
    by (simp add: and_one_eq bit_0 odd_iff_mod_2_eq_one)
  have "map (\<lambda>i. if bit bits i then CHR ''1'' else CHR ''0'') [0..<Suc n]
      = (if bit bits 0 then CHR ''1'' else CHR ''0'')
          # map (\<lambda>i. if bit bits (Suc i) then CHR ''1'' else CHR ''0'') [0..<n]"
    by (simp only: map_upt_Suc)
  also have "\<dots> = (if bit bits 0 then CHR ''1'' else CHR ''0'')
          # map (\<lambda>i. if bit (drop_bit 1 bits) i then CHR ''1'' else CHR ''0'') [0..<n]"
    by (simp add: bit_drop_bit_eq)
  finally show ?case
    by (simp only: balance_loop.simps Suc.IH low)
qed

lemma balance_loop_no_nul: "CHR 0x00 \<notin> set (balance_loop n bits)"
  by (auto simp: balance_loop_bits)

lemma balance_cell_count:
  "(if unat (c :: u8) < 33 then unat c else 33 - 1) = min (unat c) 32"
  by auto

lemma balance_buffer:
  "balance data balanceStr =
     balance_loop (min (unat (cells data)) 32)
         (push_bit 16 (ucast (balanceHigh data)) OR ucast (balanceLow data))
       @ CHR 0x00 # drop (Suc (min (unat (cells data)) 32)) balanceStr"
  by (simp only: balance_def Let_def balance_cell_count fill_def)
     (simp add: balance_loop_bits)

lemma takeWhile_upto_mark:
  "x \<notin> set w \<Longrightarrow> takeWhile (\<lambda>c. c \<noteq> x) (w @ x # r) = w"
  by (induction w) auto

lemma c_str_balance:
  "c_str (balance data balanceStr) =
     map (\<lambda>i. if bit (push_bit 16 (ucast (balanceHigh data)) OR ucast (balanceLow data) :: u32) i
               then CHR ''1'' else CHR ''0'')
       [0..<min (unat (cells data)) 32]"
proof -
  have "c_str (balance data balanceStr) =
     balance_loop (min (unat (cells data)) 32)
         (push_bit 16 (ucast (balanceHigh data)) OR ucast (balanceLow data))"
    unfolding balance_buffer c_str_def
    by (rule takeWhile_upto_mark [OF balance_loop_no_nul])
  then show ?thesis by (simp only: balance_loop_bits)
qed

text \<open>
  C8. The balance string of a status record with \<open>cells = 4\<close>, \<open>balanceLow = 0b0101\<close>
  and \<open>balanceHigh = 0\<close> is \<open>''1010''\<close>, whatever the other fields and the previous
  content of the buffer; and for every record, character \<open>i\<close> of the string is
  \<open>CHR ''1''\<close> if bit \<open>i\<close> of \<open>balanceHigh << 16 | balanceLow\<close> is set and
  \<open>CHR ''0''\<close> otherwise, bit 0 first.
\<close>

theorem balance_bit0_first:
  "c_str (balance (data\<lparr>cells := 4, balanceLow := 5, balanceHigh := 0\<rparr>) balanceStr) = ''1010''
   \<and> c_str (balance data balanceStr) =
       map (\<lambda>i. if bit (push_bit 16 (ucast (balanceHigh data)) OR ucast (balanceLow data) :: u32) i
                 then CHR ''1'' else CHR ''0'')
         [0..<min (unat (cells data)) 32]"
proof -
  have four: "(4 :: nat) = Suc (Suc (Suc (Suc 0)))" by simp
  have "c_str (balance (data\<lparr>cells := 4, balanceLow := 5, balanceHigh := 0\<rparr>) balanceStr)
      = balance_loop 4 5"
    unfolding balance_buffer c_str_def
    by (simp add: takeWhile_upto_mark [OF balance_loop_no_nul])
  also have "\<dots> = balance_loop (Suc (Suc (Suc (Suc 0)))) 5"
    by (simp only: four)
  also have "\<dots> = ''1010''"
    by (simp add: drop_bit_Suc)
  finally show ?thesis using c_str_balance by blast
qed

text \<open>
  C10. For every status record and every previous content of the buffer, the balance
  string has \<open>min cells 32\<close> characters, each \<open>CHR ''0''\<close> or \<open>CHR ''1''\<close>, and the
  buffer holds NUL right after them; a 33-byte buffer stays 33 bytes long. A cell count
  above 32 gives 32 characters.
\<close>

theorem balance_length_bounded:
  "length (c_str (balance data balanceStr)) = min (unat (cells data)) 32
   \<and> set (c_str (balance data balanceStr)) \<subseteq> {CHR ''0'', CHR ''1''}
   \<and> balance data balanceStr ! min (unat (cells data)) 32 = CHR 0x00
   \<and> (length balanceStr = 33 \<longrightarrow> length (balance data balanceStr) = 33)"
proof -
  let ?n = "min (unat (cells data)) 32"
  let ?bits = "push_bit 16 (ucast (balanceHigh data)) OR ucast (balanceLow data) :: u32"
  have len: "length (balance_loop ?n ?bits) = ?n"
    by (simp add: balance_loop_bits)
  have 1: "length (c_str (balance data balanceStr)) = ?n"
    by (simp add: c_str_balance)
  have 2: "set (c_str (balance data balanceStr)) \<subseteq> {CHR ''0'', CHR ''1''}"
    by (auto simp: c_str_balance)
  have 3: "balance data balanceStr ! ?n = CHR 0x00"
    unfolding balance_buffer using len by (simp add: nth_append)
  have 4: "length (balance data balanceStr) = 33" if "length balanceStr = 33"
    unfolding balance_buffer using len that by simp
  from 1 2 3 4 show ?thesis by blast
qed

theorem balance_length_bounded_witness:
  "length (c_str (balance \<lparr>voltage = 0, current = 0, remainingCapacity = 0,
        nominalCapacity = 0, cycles = 0, productionDate = 0, balanceLow = 0xffff,
        balanceHigh = 0x0001, fault = 0, cells = 200\<rparr> (replicate 33 (CHR ''x'')))) = 32
   \<and> length (replicate 33 (CHR ''x'')) = 33
   \<and> length (balance \<lparr>voltage = 0, current = 0, remainingCapacity = 0,
        nominalCapacity = 0, cycles = 0, productionDate = 0, balanceLow = 0xffff,
        balanceHigh = 0x0001, fault = 0, cells = 200\<rparr> (replicate 33 (CHR ''x''))) = 33"
proof -
  let ?d = "\<lparr>voltage = 0, current = 0, remainingCapacity = 0,
        nominalCapacity = 0, cycles = 0, productionDate = 0, balanceLow = 0xffff,
        balanceHigh = 0x0001, fault = 0, cells = 200\<rparr>"
  let ?b = "replicate 33 (CHR ''x'')"
  have n: "min (unat (cells ?d)) 32 = 32" by simp
  have l: "length ?b = 33" by simp
  from balance_length_bounded [of ?d ?b]
  have "length (c_str (balance ?d ?b)) = min (unat (cells ?d)) 32"
    and "length ?b = 33 \<longrightarrow> length (balance ?d ?b) = 33"
    by blast+
  with n l show ?thesis by (simp only: simp_thms)
qed

subsection \<open>What each stage of a transaction leaves unchanged\<close>

lemma delays_append: "delays (xs @ ys) = delays xs @ delays ys"
  by (induction xs rule: delays.induct) simp_all

lemma pace_cases:
  "pace s = (if millis s - m_prev s \<le> ucast (m_delay s)
             then delay (ucast (m_delay s) - (millis s - m_prev s)) s else s)"
  by (simp add: pace_def Let_def word_sub_le_iff)

lemma delay_fields:
  "trace (delay ms s) = trace s @ [Delay ms]"
  "millis (delay ms s) = millis s + ms"
  "m_prev (delay ms s) = m_prev s"
  "m_delay (delay ms s) = m_delay s"
  "m_dir_pin (delay ms s) = m_dir_pin s"
  "m_serial_cb (delay ms s) = m_serial_cb s"
  "rx (delay ms s) = rx s"
  "tx_room (delay ms s) = tx_room s"
  by (simp_all add: delay_def log_event_def)

lemma pace_fields:
  "m_prev (pace s) = m_prev s"
  "m_delay (pace s) = m_delay s"
  "m_dir_pin (pace s) = m_dir_pin s"
  "m_serial_cb (pace s) = m_serial_cb s"
  "rx (pace s) = rx s"
  "tx_room (pace s) = tx_room s"
  by (simp_all add: pace_cases delay_fields)

lemma serial_write_fields:
  assumes "serial_write bytes s = (k, s')"
  shows "k = min (length bytes) (tx_room s)"
    and "trace s' = trace s @ [Write bytes k]"
    and "tx_room s' = tx_room s - k"
    and "millis s' = millis s" and "m_prev s' = m_prev s" and "m_delay s' = m_delay s"
    and "m_dir_pin s' = m_dir_pin s" and "m_serial_cb s' = m_serial_cb s" and "rx s' = rx s"
  using assms by (auto simp: serial_write_def log_event_def Let_def)

lemma serial_readBytes_fields:
  assumes "serial_readBytes n s = (got, s')"
  shows "got = take n (rx s)"
    and "trace s' = trace s @ [ReadBytes n got]"
    and "rx s' = drop n (rx s)"
    and "tx_room s' = tx_room s"
    and "millis s' = millis s" and "m_prev s' = m_prev s" and "m_delay s' = m_delay s"
    and "m_dir_pin s' = m_dir_pin s" and "m_serial_cb s' = m_serial_cb s"
  using assms by (auto simp: serial_readBytes_def log_event_def Let_def)

text \<open>What the write chain leaves: nothing but \<^verbatim>\<open>write\<close> events, the header first.\<close>

lemma write_frame_fields:
  assumes "write_frame header command crc stop s = Some (rc, s')"
  shows "\<exists>evs. trace s' = trace s @ Write (request_header_bytes header) (min 4 (tx_room s)) # evs
               \<and> delays evs = []"
    and "millis s' = millis s" and "m_prev s' = m_prev s" and "m_delay s' = m_delay s"
    and "m_dir_pin s' = m_dir_pin s" and "m_serial_cb s' = m_serial_cb s" and "rx s' = rx s"
proof -
  obtain n1 s1 where w1: "serial_write (request_header_bytes header) s = (n1, s1)"
    by (cases "serial_write (request_header_bytes header) s")
  obtain bytes where b: "bytes = (case fetch command (unat (rq_length header)) of
                                    None \<Rightarrow> [] | Some bs \<Rightarrow> bs)"
    by simp
  obtain n2 s2 where w2: "serial_write bytes s1 = (n2, s2)"
    by (cases "serial_write bytes s1")
  obtain n3 s3 where w3: "serial_write (u16_bytes crc) s2 = (n3, s3)"
    by (cases "serial_write (u16_bytes crc) s2")
  obtain n4 s4 where w4: "serial_write [stop] s3 = (n4, s4)"
    by (cases "serial_write [stop] s3")
  have n1: "n1 = min 4 (tx_room s)"
    using serial_write_fields(1) [OF w1] by (simp add: request_header_bytes_def)
  note f1 = serial_write_fields(2,4-) [OF w1] and f2 = serial_write_fields(2,4-) [OF w2]
    and f3 = serial_write_fields(2,4-) [OF w3] and f4 = serial_write_fields(2,4-) [OF w4]
  from assms w1 w2 w3 w4 b consider "s' = s1" | "s' = s2" | "s' = s3" | "s' = s4"
    by (auto simp: write_frame_def split: option.splits if_splits)
  then have "(\<exists>evs. trace s' = trace s @ Write (request_header_bytes header) n1 # evs
               \<and> delays evs = [])
    \<and> millis s' = millis s \<and> m_prev s' = m_prev s \<and> m_delay s' = m_delay s
    \<and> m_dir_pin s' = m_dir_pin s \<and> m_serial_cb s' = m_serial_cb s \<and> rx s' = rx s"
  proof cases
    case 1
    with f1 show ?thesis by simp
  next
    case 2
    with f1 f2 show ?thesis by simp
  next
    case 3
    with f1 f2 f3 show ?thesis by simp
  next
    case 4
    with f1 f2 f3 f4 show ?thesis by simp
  qed
  then show "\<exists>evs. trace s' = trace s @ Write (request_header_bytes header) (min 4 (tx_room s)) # evs
               \<and> delays evs = []"
    and "millis s' = millis s" and "m_prev s' = m_prev s" and "m_delay s' = m_delay s"
    and "m_dir_pin s' = m_dir_pin s" and "m_serial_cb s' = m_serial_cb s" and "rx s' = rx s"
    unfolding n1 by blast+
qed

lemma transmit_fields:
  assumes "transmit header command crc stop s = Some (rc, s')"
  shows "\<exists>evs k. trace s' = trace s @ evs \<and> delays evs = []
                 \<and> Write (request_header_bytes header) k \<in> set evs"
    and "millis s' = millis s" and "m_prev s' = m_prev s" and "m_delay s' = m_delay s"
    and "m_dir_pin s' = m_dir_pin s" and "m_serial_cb s' = m_serial_cb s" and "rx s' = rx s"
proof -
  let ?s1 = "if 0 \<le> m_dir_pin s then digitalWrite (m_dir_pin s) True s else s"
  let ?s2 = "serial_flush ?s1"
  obtain s3 where w: "write_frame header command crc stop ?s2 = Some (rc, s3)"
    and s': "s' = (let s4 = serial_flush s3
                   in if 0 \<le> m_dir_pin s4 then digitalWrite (m_dir_pin s4) False s4 else s4)"
    using assms by (auto simp: transmit_def Let_def split: option.splits)
  from write_frame_fields(1) [OF w] obtain evs where
    evs: "trace s3 = trace ?s2 @ Write (request_header_bytes header) (min 4 (tx_room ?s2)) # evs"
      "delays evs = []"
    by blast
  have pre: "\<exists>a. trace ?s2 = trace s @ a \<and> delays a = []"
    by (simp add: serial_flush_def digitalWrite_def log_event_def)
  have post: "\<exists>b. trace s' = trace s3 @ b \<and> delays b = []"
    by (simp add: s' Let_def serial_flush_def digitalWrite_def log_event_def)
  from pre post evs
  show "\<exists>evs k. trace s' = trace s @ evs \<and> delays evs = []
                 \<and> Write (request_header_bytes header) k \<in> set evs"
    by (fastforce simp: delays_append)
  have same: "millis ?s2 = millis s" "m_prev ?s2 = m_prev s" "m_delay ?s2 = m_delay s"
    "m_dir_pin ?s2 = m_dir_pin s" "m_serial_cb ?s2 = m_serial_cb s" "rx ?s2 = rx s"
    by (simp_all add: serial_flush_def digitalWrite_def log_event_def)
  have same': "millis s' = millis s3" "m_prev s' = m_prev s3" "m_delay s' = m_delay s3"
    "m_dir_pin s' = m_dir_pin s3" "m_serial_cb s' = m_serial_cb s3" "rx s' = rx s3"
    by (simp_all add: s' Let_def serial_flush_def digitalWrite_def log_event_def)
  from write_frame_fields(2-) [OF w] same same'
  show "millis s' = millis s" and "m_prev s' = m_prev s" and "m_delay s' = m_delay s"
    and "m_dir_pin s' = m_dir_pin s" and "m_serial_cb s' = m_serial_cb s" and "rx s' = rx s"
    by simp_all
qed

lemma receive_tail_fields:
  assumes "receive_tail hb result crcb stopb s = Some (r, s')"
  shows "\<exists>evs. trace s' = trace s @ evs \<and> delays evs = []"
    and "millis s' = millis s" and "m_prev s' = m_prev s" and "m_delay s' = m_delay s"
    and "m_serial_cb s' = m_serial_cb s"
  using assms
  by (auto simp: receive_tail_def serial_readBytes_def log_event_def Let_def
           split: option.splits if_splits)

lemma receive_fields:
  assumes "receive result crc stop s = Some (r, s')"
  shows "\<exists>evs. trace s' = trace s @ evs \<and> delays evs = []"
    and "millis s' = millis s" and "m_prev s' = m_prev s" and "m_delay s' = m_delay s"
    and "m_serial_cb s' = m_serial_cb s"
proof -
  obtain g1 s1 where r1: "serial_readBytes 3 s = (g1, s1)" by (cases "serial_readBytes 3 s")
  note f1 = serial_readBytes_fields [OF r1]
  let ?hb = "fill g1 [0, 0, 0]"
  let ?len = "rs_length (response_header_of ?hb)"
  obtain g2 s2 where r2: "serial_readBytes (unat ?len) s1 = (g2, s2)"
    by (cases "serial_readBytes (unat ?len) s1")
  note f2 = serial_readBytes_fields [OF r2]
  from assms r1 r2 consider
      (direct) "s' = s1"
    | (tail0) "receive_tail ?hb result (u16_bytes crc) [stop] s1 = Some (r, s')"
    | (short) "s' = s2"
    | (tail) res where "receive_tail ?hb res (u16_bytes crc) [stop] s2 = Some (r, s')"
    by (auto simp: receive_def Let_def split: option.splits if_splits)
  then have "(\<exists>evs. trace s' = trace s @ evs \<and> delays evs = [])
      \<and> millis s' = millis s \<and> m_prev s' = m_prev s \<and> m_delay s' = m_delay s
      \<and> m_serial_cb s' = m_serial_cb s"
  proof cases
    case direct
    with f1 show ?thesis by simp
  next
    case tail0
    from receive_tail_fields [OF tail0] f1 show ?thesis
      by (fastforce simp: delays_append)
  next
    case short
    with f1 f2 show ?thesis by simp
  next
    case tail
    from receive_tail_fields [OF tail] f1 f2 show ?thesis
      by (fastforce simp: delays_append)
  qed
  then show "\<exists>evs. trace s' = trace s @ evs \<and> delays evs = []"
    and "millis s' = millis s" and "m_prev s' = m_prev s" and "m_delay s' = m_delay s"
    and "m_serial_cb s' = m_serial_cb s"
    by blast+
qed

lemma notify_fields:
  assumes "notify r s = Some s'"
  shows "\<exists>evs. trace s' = trace s @ evs \<and> delays evs = []"
    and "millis s' = millis s" and "m_prev s' = m_prev s" and "m_delay s' = m_delay s"
  using assms
  by (auto simp: notify_def log_event_def split: option.splits if_splits)

subsection \<open>The pacing timestamp\<close>

lemma execute_cases:
  assumes "execute header command result s = Some (rc, r, s')"
  obtains
    (refused) h' crc where "prepareCmd header command = Some (False, h', crc)"
      "rc = False" "r = result" "s' = s"
  | (unsent) h' crc s1 where "prepareCmd header command = Some (True, h', crc)"
      "transmit h' command crc 0x77 (pace s) = Some (False, s1)"
      "rc = False" "r = result" "s' = s1\<lparr>m_prev := millis s1\<rparr>"
  | (answered) h' crc s1 rcv s2 s3 where "prepareCmd header command = Some (True, h', crc)"
      "transmit h' command crc 0x77 (pace s) = Some (True, s1)"
      "receive result crc 0x77 s1 = Some (rcv, s2)" "notify rcv s2 = Some s3"
      "rc = rc_ok rcv" "r = rc_result rcv" "s' = s3\<lparr>m_prev := millis s3\<rparr>"
  using assms
  by (auto simp: execute_def split: option.splits if_splits)

lemma prepareCmd_header:
  "prepareCmd header command = Some (ok, h', crc) \<Longrightarrow> h' = header\<lparr>rq_start := 0xdd\<rparr>"
  by (auto simp: prepareCmd_def Let_def)

text \<open>
  A read of register 3 on the example link: 5 ms of pacing, the request
  \<open>DD A5 03 00 FF FD 77\<close>, the empty response, the observer call.
\<close>

lemma read_request_encodes:
  "prepareCmd read_request None = Some (True, read_request\<lparr>rq_start := 0xdd\<rparr>, 0xfdff)"
  by (simp add: prepareCmd_def genRequestCrc_def genCrc_def swap_def read_request_def)

lemma empty_reply_run:
  "execute read_request None None link3
     = Some (True, None,
         \<lparr>m_delay = 8, m_dir_pin = 4, m_serial_cb = True, m_prev = 108, millis = 108,
          rx = [], tx_room = 57,
          trace = [Delay 5, DigitalWrite 4 True, Flush, Write [0xdd, 0xa5, 3, 0] 4,
                   Write [] 0, Write [0xff, 0xfd] 2, Write [0x77] 1, Flush,
                   DigitalWrite 4 False, ReadBytes 3 [0xdd, 0, 0], ReadBytes 2 [0, 0],
                   ReadBytes 1 [0x77], SerialCb [0xdd, 0, 0, 0, 0, 0x77]]\<rparr>)"
  by (simp add: execute_def read_request_encodes [unfolded read_request_def] read_request_def
        link3_def pace_def delay_def log_event_def
        transmit_def write_frame_def serial_write_def serial_flush_def digitalWrite_def
        request_header_bytes_def fetch_def u16_bytes_def receive_def receive_tail_def
        serial_readBytes_def fill_def isValid_def genResponseCrc_def genCrc_def swap_def
        notify_def Let_def)

text \<open>
  C3, as the code has it. Whenever \<open>execute\<close> gets past \<open>prepareCmd\<close>, the pacing
  timestamp \<^verbatim>\<open>*_prev\<close> holds the clock reading at the end of the call, whether the
  call returns true or false. When \<open>prepareCmd\<close> fails, \<open>execute\<close> returns false at
  once and leaves the timestamp, and the rest of the state, as they were.
\<close>

theorem timestamp_after_execute:
  assumes "execute header command result s = Some (rc, r, s')"
  shows "(map_option fst (prepareCmd header command) = Some True \<longrightarrow> m_prev s' = millis s')
       \<and> (map_option fst (prepareCmd header command) = Some False \<longrightarrow>
            \<not> rc \<and> s' = s \<and> m_prev s' = m_prev s)"
  using assms by (cases rule: execute_cases) auto

theorem timestamp_after_execute_witness:
  "execute read_request None None link3
     = Some (True, None,
         \<lparr>m_delay = 8, m_dir_pin = 4, m_serial_cb = True, m_prev = 108, millis = 108,
          rx = [], tx_room = 57,
          trace = [Delay 5, DigitalWrite 4 True, Flush, Write [0xdd, 0xa5, 3, 0] 4,
                   Write [] 0, Write [0xff, 0xfd] 2, Write [0x77] 1, Flush,
                   DigitalWrite 4 False, ReadBytes 3 [0xdd, 0, 0], ReadBytes 2 [0, 0],
                   ReadBytes 1 [0x77], SerialCb [0xdd, 0, 0, 0, 0, 0x77]]\<rparr>)
   \<and> map_option fst (prepareCmd read_request None) = Some True
   \<and> m_prev link3 = 100"
  using timestamp_after_execute [OF empty_reply_run] empty_reply_run read_request_encodes
  by (simp add: link3_def)

text \<open>
  C3 as stated fails when \<open>prepareCmd\<close> refuses the request: on the example link, 3 ms
  after the last transaction, a request of 31 bytes returns false and the timestamp is
  still 100 while the clock reads 103.
\<close>

theorem timestamp_unchanged_on_refusal:
  "execute long_request (Some (replicate 31 1)) None link3 = Some (False, None, link3)
   \<and> m_prev link3 \<noteq> millis link3"
  by (simp add: execute_def prepareCmd_def genRequestCrc_def genCrc_def swap_def
        long_request_def link3_def)

subsection \<open>The pacing delay\<close>

lemma slept_quiet: "delays evs = [] \<Longrightarrow> slept evs = 0"
  by (simp add: slept_def)

text \<open>After \<open>prepareCmd\<close> succeeded, everything \<open>execute\<close> does after the pacing step.\<close>

lemma execute_after_pace:
  assumes ex: "execute header command result s = Some (rc, r, s')"
    and ok: "map_option fst (prepareCmd header command) = Some True"
  shows "\<exists>evs k. trace s' = trace (pace s) @ evs \<and> delays evs = []
           \<and> Write (request_header_bytes (header\<lparr>rq_start := 0xdd\<rparr>)) k \<in> set evs"
  using ex
proof (cases rule: execute_cases)
  case (refused h' crc)
  with ok show ?thesis by simp
next
  case (unsent h' crc s1)
  from transmit_fields(1) [OF unsent(2)] prepareCmd_header [OF unsent(1)] unsent(5)
  show ?thesis by auto
next
  case (answered h' crc s1 rcv s2 s3)
  from transmit_fields(1) [OF answered(2)] prepareCmd_header [OF answered(1)]
  obtain e1 k where e1: "trace s1 = trace (pace s) @ e1" "delays e1 = []"
    "Write (request_header_bytes (header\<lparr>rq_start := 0xdd\<rparr>)) k \<in> set e1"
    by auto
  from receive_fields(1) [OF answered(3)]
  obtain e2 where e2: "trace s2 = trace s1 @ e2" "delays e2 = []" by blast
  from notify_fields(1) [OF answered(4)]
  obtain e3 where e3: "trace s3 = trace s2 @ e3" "delays e3 = []" by blast
  have "trace s' = trace (pace s) @ (e1 @ e2 @ e3)"
    using e1(1) e2(1) e3(1) answered(7) by simp
  moreover have "delays (e1 @ e2 @ e3) = []"
    using e1(2) e2(2) e3(2) by (simp add: delays_append)
  moreover have "Write (request_header_bytes (header\<lparr>rq_start := 0xdd\<rparr>)) k \<in> set (e1 @ e2 @ e3)"
    using e1(3) by simp
  ultimately show ?thesis by blast
qed

text \<open>
  C5. Take a transaction that gets past \<open>prepareCmd\<close>, in a state where
  \<open>elapsed = millis - *_prev\<close> (unsigned 32-bit, wrapping) has passed since the previous
  transaction recorded its timestamp. If \<open>elapsed\<close> is below the minimum delay, the first
  thing the transaction does is \<^verbatim>\<open>delay(minimum - elapsed)\<close> (a 32-bit value equal to
  the plain difference of the two numbers); the write of the request header comes after
  it, and no other \<^verbatim>\<open>delay\<close> follows. If \<open>elapsed\<close> is at least the minimum delay the
  transaction sleeps 0 ms: above the minimum it makes no \<^verbatim>\<open>delay\<close> call at all, at
  exactly the minimum the call is \<^verbatim>\<open>delay(0)\<close>.
\<close>

theorem pacing_sleep:
  assumes ex: "execute header command result s = Some (rc, r, s')"
    and ok: "map_option fst (prepareCmd header command) = Some True"
  shows "(millis s - m_prev s < ucast (m_delay s) \<longrightarrow>
            (\<exists>evs k. trace s' = trace s @ Delay (ucast (m_delay s) - (millis s - m_prev s)) # evs
                \<and> delays evs = []
                \<and> Write (request_header_bytes (header\<lparr>rq_start := 0xdd\<rparr>)) k \<in> set evs)
            \<and> unat (ucast (m_delay s) - (millis s - m_prev s) :: u32)
                = unat (m_delay s) - unat (millis s - m_prev s))
       \<and> (ucast (m_delay s) \<le> millis s - m_prev s \<longrightarrow>
            (\<exists>evs. trace s' = trace s @ evs \<and> slept evs = 0))
       \<and> (ucast (m_delay s) < millis s - m_prev s \<longrightarrow>
            (\<exists>evs. trace s' = trace s @ evs \<and> delays evs = []))"
proof -
  let ?d = "ucast (m_delay s) :: u32"
  let ?e = "millis s - m_prev s"
  from execute_after_pace [OF ex ok]
  obtain evs k where evs: "trace s' = trace (pace s) @ evs" "delays evs = []"
    "Write (request_header_bytes (header\<lparr>rq_start := 0xdd\<rparr>)) k \<in> set evs"
    by blast
  have below: "(\<exists>evs k. trace s' = trace s @ Delay (?d - ?e) # evs \<and> delays evs = []
                \<and> Write (request_header_bytes (header\<lparr>rq_start := 0xdd\<rparr>)) k \<in> set evs)
            \<and> unat (?d - ?e) = unat (m_delay s) - unat ?e" if "?e < ?d"
  proof -
    from that have "pace s = delay (?d - ?e) s" by (simp add: pace_cases)
    then have "trace s' = trace s @ Delay (?d - ?e) # evs"
      using evs(1) by (simp add: delay_fields)
    moreover have "unat ?d = unat (m_delay s)"
      by (simp add: unsigned_ucast_eq take_bit_nat_eq_self unsigned_less [THEN less_trans])
    then have "unat (?d - ?e) = unat (m_delay s) - unat ?e"
      using that by (simp add: unat_sub)
    ultimately show ?thesis using evs(2,3) by blast
  qed
  have equal: "\<exists>evs. trace s' = trace s @ evs \<and> slept evs = 0" if "?d \<le> ?e"
  proof (cases "?e = ?d")
    case True
    then have "pace s = delay 0 s" by (simp add: pace_cases)
    then have "trace s' = trace s @ Delay 0 # evs"
      using evs(1) by (simp add: delay_fields)
    moreover have "slept (Delay 0 # evs) = 0"
      using evs(2) by (simp add: slept_def)
    ultimately show ?thesis by blast
  next
    case False
    with that have "pace s = s" by (simp add: pace_cases)
    with evs(1,2) show ?thesis by (auto simp: slept_quiet)
  qed
  have above: "\<exists>evs. trace s' = trace s @ evs \<and> delays evs = []" if "?d < ?e"
  proof -
    from that have "pace s = s" by (simp add: pace_cases)
    with evs(1,2) show ?thesis by auto
  qed
  from below equal above show ?thesis by blast
qed

theorem pacing_sleep_witness:
  "millis link3 - m_prev link3 < ucast (m_delay link3)
   \<and> map_option fst (prepareCmd read_request None) = Some True
   \<and> execute read_request None None link3
     = Some (True, None,
         \<lparr>m_delay = 8, m_dir_pin = 4, m_serial_cb = True, m_prev = 108, millis = 108,
          rx = [], tx_room = 57,
          trace = [Delay 5, DigitalWrite 4 True, Flush, Write [0xdd, 0xa5, 3, 0] 4,
                   Write [] 0, Write [0xff, 0xfd] 2, Write [0x77] 1, Flush,
                   DigitalWrite 4 False, ReadBytes 3 [0xdd, 0, 0], ReadBytes 2 [0, 0],
                   ReadBytes 1 [0x77], SerialCb [0xdd, 0, 0, 0, 0, 0x77]]\<rparr>)
   \<and> unat (ucast (m_delay link3) - (millis link3 - m_prev link3) :: u32) = 8 - 3"
proof -
  have ok: "map_option fst (prepareCmd read_request None) = Some True"
    by (simp add: read_request_encodes)
  have lt: "millis link3 - m_prev link3 < ucast (m_delay link3)"
    by (simp add: link3_def)
  from pacing_sleep [OF empty_reply_run ok] lt
  have "unat (ucast (m_delay link3) - (millis link3 - m_prev link3) :: u32)
          = unat (m_delay link3) - unat (millis link3 - m_prev link3)"
    by blast
  then have "unat (ucast (m_delay link3) - (millis link3 - m_prev link3) :: u32) = 8 - 3"
    by (simp add: link3_def)
  with lt ok empty_reply_run show ?thesis by blast
qed

subsection \<open>A request the stream accepts\<close>

lemma fetch_length: "fetch p n = Some bytes \<Longrightarrow> length bytes = n"
  by (auto simp: fetch_def split: if_splits option.splits)

lemma crc_loop_overrun: "length xs < n \<Longrightarrow> crc_loop n xs crc = None"
  by (induction n xs crc rule: crc_loop.induct) simp_all

text \<open>A checksum other than the sentinel was computed from a payload that is all there.\<close>

lemma genCrc_fetch:
  assumes "genCrc b len data = Some c" and "c \<noteq> 0"
  shows "\<exists>bytes. fetch data (unat len) = Some bytes"
proof (cases "len = 0")
  case True
  then show ?thesis by (simp add: fetch_def)
next
  case False
  then have pos: "unat len \<noteq> 0" by (simp add: unat_eq_0)
  from assms have ok: "len < 31 \<and> (len = 0 \<or> data \<noteq> None)"
    by (auto simp: genCrc_def swap_zero split: if_splits)
  with False obtain xs where xs: "data = Some xs" by auto
  have "unat len \<le> length xs"
  proof (rule ccontr)
    assume "\<not> unat len \<le> length xs"
    then have "crc_loop (unat len) xs (0 - ucast b - ucast len) = None"
      by (simp add: crc_loop_overrun)
    with assms(1) ok xs show False by (simp add: genCrc_def)
  qed
  with xs pos show ?thesis by (simp add: fetch_def)
qed

lemma prepareCmd_fetch:
  assumes "prepareCmd header command = Some (True, h', crc)"
  shows "\<exists>bytes. fetch command (unat (rq_length h')) = Some bytes"
proof -
  from assms have "genCrc (rq_command header) (rq_length header) command = Some crc"
    and "crc \<noteq> 0" and "rq_length h' = rq_length header"
    by (auto simp: prepareCmd_def genRequestCrc_def Let_def)
  with genCrc_fetch show ?thesis by metis
qed

lemma genCrc_prefix:
  assumes "length payload = unat len"
  shows "genCrc b len (Some (payload @ rest)) = genCrc b len (Some payload)"
  using assms by (simp add: genCrc_def crc_loop_sum)

lemma genCrc_empty: "genCrc b 0 data = genCrc b 0 (Some [])"
  by (simp add: genCrc_def)

text \<open>The four writes when the stream accepts the whole frame.\<close>

lemma write_frame_accepted:
  assumes "fetch command (unat (rq_length header)) = Some bytes"
    and "4 + unat (rq_length header) + 3 \<le> tx_room s"
  shows "\<exists>s'. write_frame header command crc stop s = Some (True, s')
           \<and> trace s' = trace s @ [Write (request_header_bytes header) 4,
                                     Write bytes (unat (rq_length header)),
                                     Write (u16_bytes crc) 2, Write [stop] 1]"
proof -
  let ?n = "unat (rq_length header)"
  have l: "length bytes = ?n"
    using assms(1) by (rule fetch_length)
  obtain n1 s1 where w1: "serial_write (request_header_bytes header) s = (n1, s1)"
    by (cases "serial_write (request_header_bytes header) s")
  obtain n2 s2 where w2: "serial_write bytes s1 = (n2, s2)"
    by (cases "serial_write bytes s1")
  obtain n3 s3 where w3: "serial_write (u16_bytes crc) s2 = (n3, s3)"
    by (cases "serial_write (u16_bytes crc) s2")
  obtain n4 s4 where w4: "serial_write [stop] s3 = (n4, s4)"
    by (cases "serial_write [stop] s3")
  note f1 = serial_write_fields(1-3) [OF w1] and f2 = serial_write_fields(1-3) [OF w2]
    and f3 = serial_write_fields(1-3) [OF w3] and f4 = serial_write_fields(1-3) [OF w4]
  have n1: "n1 = 4" and r1: "tx_room s1 = tx_room s - 4"
    using f1(1,3) assms(2) by (simp_all add: request_header_bytes_def)
  have n2: "n2 = ?n" and r2: "tx_room s2 = tx_room s - 4 - ?n"
    using f2(1,3) r1 l assms(2) by simp_all
  have n3: "n3 = 2" and r3: "tx_room s3 = tx_room s - 4 - ?n - 2"
    using f3(1,3) r2 assms(2) by (simp_all add: u16_bytes_def)
  have n4: "n4 = 1"
    using f4(1) r3 assms(2) by simp
  have "write_frame header command crc stop s = Some (True, s4)"
    unfolding write_frame_def w1 assms(1) by (simp add: n1 w2 n2 w3 n3 w4 n4)
  moreover have "trace s4 = trace s @ [Write (request_header_bytes header) 4,
                                     Write bytes ?n, Write (u16_bytes crc) 2, Write [stop] 1]"
    unfolding f4(2) f3(2) f2(2) f1(2) n1 n2 n3 n4 by simp
  ultimately show ?thesis by blast
qed

lemma transmit_accepted:
  assumes "fetch command (unat (rq_length header)) = Some bytes"
    and "4 + unat (rq_length header) + 3 \<le> tx_room s"
  shows "\<exists>s1 a b. transmit header command crc stop s = Some (True, s1)
           \<and> trace s1 = trace s @ a @ [Write (request_header_bytes header) 4,
                                        Write bytes (unat (rq_length header)),
                                        Write (u16_bytes crc) 2, Write [stop] 1] @ b"
proof -
  let ?s1 = "if 0 \<le> m_dir_pin s then digitalWrite (m_dir_pin s) True s else s"
  let ?s2 = "serial_flush ?s1"
  have room: "4 + unat (rq_length header) + 3 \<le> tx_room ?s2"
    using assms(2) by (simp add: serial_flush_def digitalWrite_def log_event_def)
  have "\<exists>a. trace ?s2 = trace s @ a"
    by (simp add: serial_flush_def digitalWrite_def log_event_def)
  then obtain a where a: "trace ?s2 = trace s @ a" by blast
  from write_frame_accepted [OF assms(1) room, of crc stop]
  obtain s3 where w: "write_frame header command crc stop ?s2 = Some (True, s3)"
    and t3: "trace s3 = trace ?s2 @ [Write (request_header_bytes header) 4,
                                     Write bytes (unat (rq_length header)),
                                     Write (u16_bytes crc) 2, Write [stop] 1]"
    by blast
  let ?s4 = "serial_flush s3"
  let ?s5 = "if 0 \<le> m_dir_pin ?s4 then digitalWrite (m_dir_pin ?s4) False ?s4 else ?s4"
  have t: "transmit header command crc stop s = Some (True, ?s5)"
    unfolding transmit_def Let_def w by simp
  have "\<exists>b. trace ?s5 = trace s3 @ b"
    by (simp add: serial_flush_def digitalWrite_def log_event_def)
  then obtain b where b: "trace ?s5 = trace s3 @ b" by blast
  have "trace ?s5 = trace s @ a @ [Write (request_header_bytes header) 4,
                                        Write bytes (unat (rq_length header)),
                                        Write (u16_bytes crc) 2, Write [stop] 1] @ b"
    unfolding b t3 a by simp
  with t show ?thesis by blast
qed

subsection \<open>Checksum and stop byte of a response\<close>

lemma genCrc_total:
  "length payload = unat len \<Longrightarrow> \<exists>c. genCrc b len (Some payload) = Some c"
  by (simp add: genCrc_def crc_loop_sum)

lemma receive_tail_complete:
  assumes rx: "rx s = c_lo # c_hi # stp # extra"
    and v: "isValid (response_header_of hb) result (u16_of_bytes [c_lo, c_hi]) = Some v"
  shows "\<exists>r s'. receive_tail hb result crcb stopb s = Some (r, s')
           \<and> rc_ok r = (v \<and> rs_returncode (response_header_of hb) = 0)
           \<and> rc_header r = hb \<and> rc_result r = result
           \<and> m_serial_cb s' = m_serial_cb s"
proof -
  obtain g3 s3 where r3: "serial_readBytes 2 s = (g3, s3)" by (cases "serial_readBytes 2 s")
  note f3 = serial_readBytes_fields(1,3,9) [OF r3]
  have g3: "g3 = [c_lo, c_hi]" and rx3: "rx s3 = stp # extra"
    using f3(1,2) rx by simp_all
  obtain g4 s4 where r4: "serial_readBytes 1 s3 = (g4, s4)" by (cases "serial_readBytes 1 s3")
  note f4 = serial_readBytes_fields(1,3,9) [OF r4]
  have g4: "g4 = [stp]"
    using f4(1) rx3 by simp
  have c: "u16_of_bytes (fill [c_lo, c_hi] crcb) = u16_of_bytes [c_lo, c_hi]"
    by (simp add: fill_def)
  have "receive_tail hb result crcb stopb s =
          Some (\<lparr>rc_ok = (v \<and> rs_returncode (response_header_of hb) = 0), rc_header = hb,
                  rc_result = result, rc_crc = fill [c_lo, c_hi] crcb,
                  rc_stop = fill [stp] stopb\<rparr>, s4)"
    unfolding receive_tail_def Let_def r3
    by (simp add: g3 r4 [unfolded One_nat_def] g4 c v [simplified])
  moreover have "m_serial_cb s4 = m_serial_cb s"
    using f3(3) f4(3) by simp
  ultimately show ?thesis by simp
qed

lemma receive_tail_short:
  assumes "length (rx s) < 3"
    and "receive_tail hb result crcb stopb s = Some (r, s')"
  shows "\<not> rc_ok r"
proof -
  obtain g3 s3 where r3: "serial_readBytes 2 s = (g3, s3)" by (cases "serial_readBytes 2 s")
  note f3 = serial_readBytes_fields(1,3) [OF r3]
  obtain g4 s4 where r4: "serial_readBytes 1 s3 = (g4, s4)" by (cases "serial_readBytes 1 s3")
  note f4 = serial_readBytes_fields(1,3) [OF r4]
  have "length g3 \<noteq> 2 \<or> length g4 \<noteq> 1"
    using f3 f4(1) assms(1) by auto
  with assms(2) r3 r4 show ?thesis
    by (auto simp: receive_tail_def Let_def split: if_splits option.splits)
qed

subsection \<open>When a transaction succeeds\<close>

text \<open>The receive block on a stream that holds a complete frame.\<close>

lemma receive_complete:
  assumes rx: "rx s = start # status # len # payload @ c_lo # c_hi # stp # extra"
    and plen: "length payload = unat len"
    and fits: "len \<le> 64 \<longrightarrow> len = 0 \<or> (\<exists>xs. result = Some xs \<and> unat len \<le> length xs)"
  shows "\<exists>r s'. receive result crc stop s = Some (r, s')
           \<and> rc_ok r = (start = 0xdd \<and> len \<le> 64
                \<and> genCrc status len (Some payload) = Some (u16_of_bytes [c_lo, c_hi])
                \<and> status = 0)
           \<and> rc_header r = [start, status, len]
           \<and> (rc_result r = result
                \<or> (\<exists>xs. result = Some xs \<and> unat len \<le> length xs
                        \<and> rc_result r = Some (fill payload xs)))
           \<and> m_serial_cb s' = m_serial_cb s"
proof -
  obtain g1 s1 where r1: "serial_readBytes 3 s = (g1, s1)" by (cases "serial_readBytes 3 s")
  note f1 = serial_readBytes_fields(1,3,9) [OF r1]
  have g1: "g1 = [start, status, len]"
    and rx1: "rx s1 = payload @ c_lo # c_hi # stp # extra"
    using f1(1,2) rx by simp_all
  let ?hb = "[start, status, len]"
  have hb: "fill [a, b, c] [0, 0, 0] = [a, b, c]" for a b c :: u8 by (simp add: fill_def)
  have hdr: "response_header_of ?hb = \<lparr>rs_start = start, rs_returncode = status, rs_length = len\<rparr>"
    by simp
  obtain c where c: "genCrc status len (Some payload) = Some c"
    using genCrc_total [OF plen] by blast
  let ?crc = "u16_of_bytes [c_lo, c_hi]"
  show ?thesis
  proof (cases "start = 0xdd \<and> len \<le> 64")
    case False
    then have "receive result crc stop s
        = Some (\<lparr>rc_ok = False, rc_header = ?hb, rc_result = result,
                  rc_crc = u16_bytes crc, rc_stop = [stop]\<rparr>, s1)"
      unfolding receive_def r1 by (auto simp: Let_def g1 hb)
    with False f1(3) show ?thesis by auto
  next
    case good: True
    show ?thesis
    proof (cases "len = 0")
      case True
      with plen have p: "payload = []" by simp
      have v: "isValid (response_header_of ?hb) result ?crc = Some (c = ?crc)"
        using c True p genCrc_empty [of status result]
        by (simp add: isValid_def genResponseCrc_def)
      from receive_tail_complete [OF rx1 [unfolded p append_Nil] v, of "u16_bytes crc" "[stop]"]
      obtain r s' where t: "receive_tail ?hb result (u16_bytes crc) [stop] s1 = Some (r, s')"
        and r: "rc_ok r = (c = ?crc \<and> rs_returncode (response_header_of ?hb) = 0)"
          "rc_header r = ?hb" "rc_result r = result" "m_serial_cb s' = m_serial_cb s1"
        by blast
      have "receive result crc stop s = Some (r, s')"
        unfolding receive_def r1 using good True t by (simp add: Let_def g1 hb)
      moreover have "rc_ok r = (start = 0xdd \<and> len \<le> 64
                \<and> genCrc status len (Some payload) = Some ?crc \<and> status = 0)"
        using r(1) c good by auto
      ultimately show ?thesis using r(2-) f1(3) by auto
    next
      case False
      with good fits obtain xs where xs: "result = Some xs" "unat len \<le> length xs" by blast
      from False have pne: "payload \<noteq> []" using plen by (auto simp: unat_eq_0)
      obtain g2 s2 where r2: "serial_readBytes (unat len) s1 = (g2, s2)"
        by (cases "serial_readBytes (unat len) s1")
      note f2 = serial_readBytes_fields(1,3,9) [OF r2]
      have g2: "g2 = payload" and rx2: "rx s2 = c_lo # c_hi # stp # extra"
        using f2(1,2) rx1 plen by simp_all
      have st: "store (Some xs) payload = Some (Some (fill payload xs))"
        using xs pne plen by (simp add: store_def)
      have v: "isValid (response_header_of ?hb) (Some (fill payload xs)) ?crc = Some (c = ?crc)"
        using c genCrc_prefix [OF plen, of status "drop (length payload) xs"]
        by (simp add: isValid_def genResponseCrc_def fill_def)
      from receive_tail_complete [OF rx2 v, of "u16_bytes crc" "[stop]"]
      obtain r s' where t: "receive_tail ?hb (Some (fill payload xs)) (u16_bytes crc) [stop] s2
                              = Some (r, s')"
        and r: "rc_ok r = (c = ?crc \<and> rs_returncode (response_header_of ?hb) = 0)"
          "rc_header r = ?hb" "rc_result r = Some (fill payload xs)"
          "m_serial_cb s' = m_serial_cb s2"
        by blast
      have "receive result crc stop s = Some (r, s')"
        unfolding receive_def r1 using good False t xs(1)
        by (simp add: Let_def g1 hb r2 st g2 plen)
      moreover have "rc_ok r = (start = 0xdd \<and> len \<le> 64
                \<and> genCrc status len (Some payload) = Some ?crc \<and> status = 0)"
        using r(1) c good by auto
      ultimately show ?thesis using r(2-) f1(3) f2(3) xs by auto
    qed
  qed
qed

text \<open>
  What \<open>execute\<close> returns on a complete response. Let the request encode, the stream
  accept the whole request frame, and the stream hold the three header bytes, as many
  payload bytes as the header declares, two checksum bytes and a stop byte (more may
  follow). Let the result buffer have room for the declared length whenever the payload
  is read (declared length at most 64) or a frame observer copies it. Then \<open>execute\<close>
  returns, and it returns true exactly when the start marker is 0xDD, the declared length
  is at most 64, the received checksum (low byte first) equals what \<open>genCrc\<close> returns
  for status byte, declared length and payload, and the status byte is 0. From a declared
  length of 31 on, what \<open>genCrc\<close> returns is 0 whatever the payload.
\<close>

lemma execute_flag:
  assumes enc: "map_option fst (prepareCmd header command) = Some True"
    and room: "4 + unat (rq_length header) + 3 \<le> tx_room s"
    and rx: "rx s = start # status # len # payload @ c_lo # c_hi # stp # extra"
    and plen: "length payload = unat len"
    and fits: "len \<le> 64 \<or> m_serial_cb s \<longrightarrow>
                 len = 0 \<or> (\<exists>xs. result = Some xs \<and> unat len \<le> length xs)"
  shows "map_option fst (execute header command result s)
           = Some (start = 0xdd \<and> len \<le> 64
                   \<and> genCrc status len (Some payload) = Some (u16_of_bytes [c_lo, c_hi])
                   \<and> status = 0)
       \<and> (31 \<le> len \<longrightarrow> genCrc status len (Some payload) = Some 0)"
proof -
  from enc obtain h' crc where p: "prepareCmd header command = Some (True, h', crc)"
    by (cases "prepareCmd header command") auto
  have len': "rq_length h' = rq_length header"
    using prepareCmd_header [OF p] by simp
  from prepareCmd_fetch [OF p] obtain bytes
    where bytes: "fetch command (unat (rq_length h')) = Some bytes" by blast
  have room': "4 + unat (rq_length h') + 3 \<le> tx_room (pace s)"
    using room by (simp add: len' pace_fields)
  from transmit_accepted [OF bytes room', of crc "0x77"]
  obtain s1 where t: "transmit h' command crc 0x77 (pace s) = Some (True, s1)" by blast
  note tf = transmit_fields(6,7) [OF t]
  have rx1: "rx s1 = start # status # len # payload @ c_lo # c_hi # stp # extra"
    using tf(2) rx by (simp add: pace_fields)
  have cb1: "m_serial_cb s1 = m_serial_cb s"
    using tf(1) by (simp add: pace_fields)
  from fits have fits1: "len \<le> 64 \<longrightarrow> len = 0 \<or> (\<exists>xs. result = Some xs \<and> unat len \<le> length xs)"
    by blast
  from receive_complete [OF rx1 plen fits1, of crc "0x77"]
  obtain r s2 where rcv: "receive result crc 0x77 s1 = Some (r, s2)"
    and ok: "rc_ok r = (start = 0xdd \<and> len \<le> 64
                \<and> genCrc status len (Some payload) = Some (u16_of_bytes [c_lo, c_hi])
                \<and> status = 0)"
    and hb: "rc_header r = [start, status, len]"
    and res: "rc_result r = result
                \<or> (\<exists>xs. result = Some xs \<and> unat len \<le> length xs
                        \<and> rc_result r = Some (fill payload xs))"
    and cb2: "m_serial_cb s2 = m_serial_cb s1"
    by blast
  have "\<exists>s3. notify r s2 = Some s3"
  proof (cases "m_serial_cb s2")
    case False
    then show ?thesis by (simp add: notify_def)
  next
    case True
    with cb1 cb2 fits have f: "len = 0 \<or> (\<exists>xs. result = Some xs \<and> unat len \<le> length xs)"
      by simp
    have "\<exists>pl. fetch (rc_result r) (unat len) = Some pl"
    proof (cases "len = 0")
      case True
      then show ?thesis by (simp add: fetch_def)
    next
      case False
      with f obtain xs where xs: "result = Some xs" "unat len \<le> length xs" by blast
      from res xs have "\<exists>ys. rc_result r = Some ys \<and> unat len \<le> length ys"
        by (auto simp: fill_def plen)
      then show ?thesis by (auto simp: fetch_def)
    qed
    then show ?thesis by (auto simp: notify_def hb)
  qed
  then obtain s3 where n: "notify r s2 = Some s3" by blast
  have "execute header command result s = Some (rc_ok r, rc_result r, s3\<lparr>m_prev := millis s3\<rparr>)"
    by (simp add: execute_def p t rcv n)
  then have "map_option fst (execute header command result s) = Some (rc_ok r)" by simp
  moreover have "31 \<le> len \<longrightarrow> genCrc status len (Some payload) = Some 0"
    by (simp add: genCrc_refused)
  ultimately show ?thesis unfolding ok by blast
qed

lemma execute_flag_example:
  "map_option fst (prepareCmd read_request None) = Some True
   \<and> 4 + unat (rq_length read_request) + 3 \<le> tx_room link_reply
   \<and> rx link_reply = 0xdd # 0 # 2 # [0x11, 0x22] @ 0xff # 0xcb # 0x77 # []
   \<and> length [0x11, 0x22 :: u8] = unat (2 :: u8)
   \<and> map_option fst (execute read_request None (Some [1, 2, 3, 4]) link_reply) = Some True"
proof -
  have enc: "map_option fst (prepareCmd read_request None) = Some True"
    by (simp add: read_request_encodes)
  have room: "4 + unat (rq_length read_request) + 3 \<le> tx_room link_reply"
    by (simp add: read_request_def link_reply_def link3_def)
  have rx: "rx link_reply = 0xdd # 0 # 2 # [0x11, 0x22] @ 0xff # 0xcb # 0x77 # []"
    by (simp add: link_reply_def link3_def)
  have plen: "length [0x11, 0x22 :: u8] = unat (2 :: u8)" by simp
  have fits: "(2 :: u8) \<le> 64 \<or> m_serial_cb link_reply \<longrightarrow>
                (2 :: u8) = 0 \<or> (\<exists>xs. Some [1, 2, 3, 4 :: u8] = Some xs \<and> unat (2 :: u8) \<le> length xs)"
    by simp
  have crc: "genCrc 0 2 (Some [0x11, 0x22]) = Some (u16_of_bytes [0xff, 0xcb])"
    by (simp add: genCrc_def crc_loop_sum swap_def)
  from execute_flag [OF enc room rx plen fits]
  have "map_option fst (execute read_request None (Some [1, 2, 3, 4]) link_reply) = Some True"
    by (simp only: crc simp_thms order_refl) simp
  with enc room rx plen show ?thesis by blast
qed

subsection \<open>The checksum test on a response\<close>

lemma crc_loop_foldl:
  "crc_loop (length xs) xs crc = Some (foldl (\<lambda>acc x. acc - ucast x) crc xs)"
  by (induction xs arbitrary: crc) simp_all

lemma foldl_sub_sum:
  "foldl (\<lambda>acc x. acc - ucast x) (crc :: u16) (xs :: u8 list) = crc - sum_list (map ucast xs)"
  by (induction xs arbitrary: crc) (simp_all add: diff_diff_eq)

text \<open>Below 31 bytes \<open>genCrc\<close> is the checksum of the spec.\<close>

lemma genCrc_spec_checksum:
  assumes "len < 31" and "length payload = unat len"
  shows "genCrc b len (Some payload) = Some (spec_checksum b len payload)"
  using assms crc_loop_foldl [of payload "0 - ucast b - ucast len"]
  by (simp add: genCrc_def spec_checksum_def)

text \<open>
  For declared lengths below 31 the flag is as C2 says: \<open>execute\<close> returns true exactly
  when the start marker is 0xDD, the received checksum equals the checksum of the spec
  over status byte, declared length and payload, and the status byte is 0.
\<close>

lemma execute_flag_below_31:
  assumes enc: "map_option fst (prepareCmd header command) = Some True"
    and room: "4 + unat (rq_length header) + 3 \<le> tx_room s"
    and rx: "rx s = start # status # len # payload @ c_lo # c_hi # stp # extra"
    and plen: "length payload = unat len"
    and fits: "len = 0 \<or> (\<exists>xs. result = Some xs \<and> unat len \<le> length xs)"
    and small: "len < 31"
  shows "map_option fst (execute header command result s)
           = Some (start = 0xdd \<and> len \<le> 64
                   \<and> u16_of_bytes [c_lo, c_hi] = spec_checksum status len payload
                   \<and> status = 0)"
proof -
  from fits have fits': "len \<le> 64 \<or> m_serial_cb s \<longrightarrow>
                 len = 0 \<or> (\<exists>xs. result = Some xs \<and> unat len \<le> length xs)"
    by blast
  have g: "genCrc status len (Some payload) = Some (spec_checksum status len payload)"
    using small plen by (rule genCrc_spec_checksum)
  have e: "(Some (spec_checksum status len payload) = Some (u16_of_bytes [c_lo, c_hi]))
             = (u16_of_bytes [c_lo, c_hi] = spec_checksum status len payload)"
    by auto
  note flag = execute_flag [OF enc room rx plen fits', THEN conjunct1]
  show ?thesis
    by (rule flag [unfolded g e])
qed

lemma spec_checksum_replicate:
  "spec_checksum b len (replicate n x)
     = swap (0 - ucast b - ucast len - of_nat n * ucast x)"
  by (simp add: spec_checksum_def foldl_sub_sum sum_list_replicate)

lemma long_reply_flag:
  assumes "rx s = 0xdd # 0 # 32 # replicate 32 x @ c_lo # c_hi # 0x77 # []"
    and "tx_room s = 64"
  shows "map_option fst (execute read_request None (Some (replicate 64 0)) s)
           = Some (u16_of_bytes [c_lo, c_hi] = 0)"
proof -
  have enc: "map_option fst (prepareCmd read_request None) = Some True"
    by (simp add: read_request_encodes)
  have room: "4 + unat (rq_length read_request) + 3 \<le> tx_room s"
    using assms(2) by (simp add: read_request_def)
  have plen: "length (replicate 32 x) = unat (32 :: u8)" by simp
  have fits: "(32 :: u8) \<le> 64 \<or> m_serial_cb s \<longrightarrow>
                (32 :: u8) = 0 \<or> (\<exists>xs. Some (replicate 64 (0 :: u8)) = Some xs
                                          \<and> unat (32 :: u8) \<le> length xs)"
    by simp
  have g: "genCrc 0 32 (Some (replicate 32 x)) = Some 0"
    by (rule genCrc_refused) simp
  have e: "(Some 0 = Some (u16_of_bytes [c_lo, c_hi])) = (u16_of_bytes [c_lo, c_hi] = 0)"
    by auto
  note flag = execute_flag [OF enc room assms(1) plen fits, THEN conjunct1]
  from flag [unfolded g e] show ?thesis by simp
qed

text \<open>
  C2 fails on the code for declared lengths from 31 to 64. A response with start marker
  0xDD, status 0, declared length 32, the payload of 32 bytes \<open>0x01\<close> and the checksum of
  the spec over status byte, length and payload (\<open>FF C0\<close> on the wire) makes \<open>execute\<close>
  return false. A response with the payload of 32 bytes \<open>0x5A\<close> and the checksum bytes
  \<open>00 00\<close>, which are not the checksum of that payload, makes it return true.
\<close>

theorem long_response_checksum_not_recomputed:
  "u16_of_bytes [0xff, 0xc0] = spec_checksum 0 32 (replicate 32 0x01)
   \<and> map_option fst (execute read_request None (Some (replicate 64 0)) link_long) = Some False
   \<and> u16_of_bytes [0x00, 0x00] \<noteq> spec_checksum 0 32 (replicate 32 0x5a)
   \<and> map_option fst (execute read_request None (Some (replicate 64 0)) link_junk) = Some True"
proof -
  have 1: "u16_of_bytes [0xff, 0xc0] = spec_checksum 0 32 (replicate 32 0x01)"
    by (simp add: spec_checksum_replicate swap_def)
  have 3: "u16_of_bytes [0x00, 0x00] \<noteq> spec_checksum 0 32 (replicate 32 0x5a)"
    by (simp add: spec_checksum_replicate swap_def)
  have rxl: "rx link_long = 0xdd # 0 # 32 # replicate 32 0x01 @ 0xff # 0xc0 # 0x77 # []"
    by (simp add: link_long_def link3_def)
  have rxj: "rx link_junk = 0xdd # 0 # 32 # replicate 32 0x5a @ 0x00 # 0x00 # 0x77 # []"
    by (simp add: link_junk_def link3_def)
  have room: "tx_room link_long = 64" "tx_room link_junk = 64"
    by (simp_all add: link_long_def link_junk_def link3_def)
  have 2: "map_option fst (execute read_request None (Some (replicate 64 0)) link_long)
             = Some False"
    using long_reply_flag [OF rxl room(1)] by simp
  have 4: "map_option fst (execute read_request None (Some (replicate 64 0)) link_junk)
             = Some True"
    using long_reply_flag [OF rxj room(2)] by simp
  from 1 2 3 4 show ?thesis by blast
qed

lemma swap_eq_0: "swap x = 0 \<Longrightarrow> x = 0"
proof -
  assume a: "swap x = 0"
  then have p: "push_bit 8 x = 0" and d: "drop_bit 8 x = 0"
    by (simp_all add: swap_def or_eq_0_iff)
  show "x = 0"
  proof (rule bit_eqI)
    fix n
    assume "possible_bit TYPE(16 word) n"
    then have n: "n < 16" by (simp add: possible_bit_word)
    show "bit x n = bit (0 :: u16) n"
    proof (cases "n < 8")
      case True
      have "bit (push_bit 8 x) (n + 8) = bit x n"
        using True by (simp add: bit_push_bit_iff possible_bit_word)
      with p show ?thesis by simp
    next
      case False
      have "bit (drop_bit 8 x) (n - 8) = bit x n"
        using False by (simp add: bit_drop_bit_eq)
      with d show ?thesis by simp
    qed
  qed
qed

lemma mosfet_crc_nonzero:
  "(0 - ucast (m :: u8) - 2 - ucast (v :: u8) :: u16) \<noteq> 0"
proof
  assume "(0 - ucast m - 2 - ucast v :: u16) = 0"
  then have "(ucast m + 2 + ucast v :: u16) = 0"
    by (simp add: algebra_simps) (metis add.commute add.left_commute add_eq_0_iff2)
  then have "unat (ucast m + 2 + ucast v :: u16) = 0" by simp
  moreover have "unat (ucast m :: u16) = unat m" "unat (ucast v :: u16) = unat v"
    by (simp_all add: unsigned_ucast_eq take_bit_nat_eq_self unsigned_less [THEN less_trans])
  moreover have "unat m < 256" "unat v < 256"
    using unsigned_less [of m] unsigned_less [of v] by simp_all
  ultimately show False
    by (simp add: unat_word_ariths)
qed

subsection \<open>The MOSFET write\<close>

lemma pace_trace: "\<exists>a. trace (pace s) = trace s @ a"
  by (simp add: pace_cases delay_fields)

text \<open>When the stream accepts the whole frame, the four writes are in the trace.\<close>

lemma execute_sent:
  assumes p: "prepareCmd header command = Some (True, h', crc)"
    and bytes: "fetch command (unat (rq_length header)) = Some bytes"
    and room: "4 + unat (rq_length header) + 3 \<le> tx_room s"
    and ex: "execute header command result s = Some (rc, r, s')"
  shows "\<exists>a b. trace s' = trace s @ a @ [Write (request_header_bytes h') 4,
                                            Write bytes (unat (rq_length header)),
                                            Write (u16_bytes crc) 2, Write [0x77] 1] @ b"
proof -
  let ?W = "[Write (request_header_bytes h') 4, Write bytes (unat (rq_length header)),
             Write (u16_bytes crc) 2, Write [0x77] 1]"
  have len': "rq_length h' = rq_length header"
    using prepareCmd_header [OF p] by simp
  have room': "4 + unat (rq_length h') + 3 \<le> tx_room (pace s)"
    using room by (simp add: len' pace_fields)
  from transmit_accepted [OF bytes [folded len'] room', of crc "0x77"]
  obtain s1 a b where t: "transmit h' command crc 0x77 (pace s) = Some (True, s1)"
    and t1: "trace s1 = trace (pace s) @ a @ ?W @ b"
    unfolding len' by blast
  obtain a0 where a0: "trace (pace s) = trace s @ a0" using pace_trace by blast
  from ex show ?thesis
  proof (cases rule: execute_cases)
    case (refused h2 crc2)
    with p show ?thesis by simp
  next
    case (unsent h2 crc2 s2)
    with p t show ?thesis by simp
  next
    case (answered h2 crc2 s2 rcv s3 s4)
    with p t have s2: "s2 = s1" and c2: "crc2 = crc" by simp_all
    from receive_fields(1) [OF answered(3)]
    obtain e2 where e2: "trace s3 = trace s2 @ e2" by blast
    from notify_fields(1) [OF answered(4)]
    obtain e3 where e3: "trace s4 = trace s3 @ e3" by blast
    have "trace s' = trace s @ (a0 @ a) @ ?W @ (b @ e2 @ e3)"
      unfolding answered(7) using e3 e2 s2 t1 a0 by simp
    then show ?thesis by blast
  qed
qed

lemma mosfet_prepareCmd:
  "prepareCmd \<lparr>rq_start = 0, rq_type = t, rq_command = m, rq_length = 2\<rparr> (Some [0, v])
     = Some (True, \<lparr>rq_start = 0xdd, rq_type = t, rq_command = m, rq_length = 2\<rparr>,
             swap (0 - ucast m - 2 - ucast v))"
proof -
  have "genCrc m 2 (Some [0, v]) = Some (swap (0 - ucast m - 2 - ucast v))"
    by (simp add: genCrc_def crc_loop_sum)
  moreover have "swap (0 - ucast m - 2 - ucast v) \<noteq> 0"
    using swap_eq_0 mosfet_crc_nonzero by blast
  ultimately show ?thesis
    by (simp add: prepareCmd_def genRequestCrc_def)
qed

text \<open>
  C9. For every switch state, \<open>setMosfetStatus\<close> is \<open>execute\<close> on the header
  \<^verbatim>\<open>{ 0, WRITE, MOSFET, 2 }\<close> with the two payload bytes \<open>0\<close> and
  \<open>NOT status AND MOSFET_BOTH\<close> and no result buffer. When the stream accepts the nine
  bytes of the frame and the call returns, the trace holds the four writes: the header with
  start marker, WRITE, MOSFET and length 2, the payload of exactly these two bytes, the
  checksum over them, and the stop byte.
\<close>

theorem setMosfetStatus_payload:
  "setMosfetStatus p status s
     = map_option (\<lambda>(rc, r, s'). (rc, s'))
         (execute \<lparr>rq_start = 0, rq_type = WRITE p, rq_command = MOSFET p, rq_length = 2\<rparr>
            (Some [0, NOT status AND MOSFET_BOTH p]) None s)
   \<and> (9 \<le> tx_room s \<longrightarrow> setMosfetStatus p status s = Some (rc, s') \<longrightarrow>
        (\<exists>a b. trace s' = trace s @ a
            @ [Write [0xdd, WRITE p, MOSFET p, 2] 4,
               Write [0, NOT status AND MOSFET_BOTH p] 2,
               Write (u16_bytes (swap (0 - ucast (MOSFET p) - 2
                                         - ucast (NOT status AND MOSFET_BOTH p)))) 2,
               Write [0x77] 1] @ b))"
proof -
  let ?h = "\<lparr>rq_start = 0, rq_type = WRITE p, rq_command = MOSFET p, rq_length = 2\<rparr>"
  let ?v = "NOT status AND MOSFET_BOTH p"
  have eq: "setMosfetStatus p status s
     = map_option (\<lambda>(rc, r, s'). (rc, s')) (execute ?h (Some [0, ?v]) None s)"
    by (simp add: setMosfetStatus_def Let_def)
  have wire: "\<exists>a b. trace s' = trace s @ a
            @ [Write [0xdd, WRITE p, MOSFET p, 2] 4, Write [0, ?v] 2,
               Write (u16_bytes (swap (0 - ucast (MOSFET p) - 2 - ucast ?v))) 2,
               Write [0x77] 1] @ b"
    if room: "9 \<le> tx_room s" and ret: "setMosfetStatus p status s = Some (rc, s')"
  proof -
    from ret eq obtain r where ex: "execute ?h (Some [0, ?v]) None s = Some (rc, r, s')"
      by auto
    have f: "fetch (Some [0, ?v]) (unat (rq_length ?h)) = Some [0, ?v]"
      by (simp add: fetch_def)
    have room': "4 + unat (rq_length ?h) + 3 \<le> tx_room s"
      using room by simp
    from execute_sent [OF mosfet_prepareCmd f room' ex]
    show ?thesis by (simp add: request_header_bytes_def)
  qed
  from eq wire show ?thesis by blast
qed

theorem setMosfetStatus_payload_witness:
  "9 \<le> tx_room link3
   \<and> setMosfetStatus example_protocol 1 link3
     = Some (True,
         \<lparr>m_delay = 8, m_dir_pin = 4, m_serial_cb = True, m_prev = 108, millis = 108,
          rx = [], tx_room = 55,
          trace = [] @ [Delay 5, DigitalWrite 4 True, Flush]
                   @ [Write [0xdd, 0x5a, 0xe1, 2] 4, Write [0, 2] 2,
                      Write [0xff, 0x1b] 2, Write [0x77] 1]
                   @ [Flush, DigitalWrite 4 False, ReadBytes 3 [0xdd, 0, 0],
                      ReadBytes 2 [0, 0], ReadBytes 1 [0x77],
                      SerialCb [0xdd, 0, 0, 0, 0, 0x77]]\<rparr>)"
proof -
  have room: "9 \<le> tx_room link3" by (simp add: link3_def)
  have p: "prepareCmd \<lparr>rq_start = 0, rq_type = 0x5a, rq_command = 0xe1, rq_length = 2\<rparr>
             (Some [0, 2])
           = Some (True, \<lparr>rq_start = 0xdd, rq_type = 0x5a, rq_command = 0xe1, rq_length = 2\<rparr>,
                   0x1bff)"
    using mosfet_prepareCmd [of "0x5a" "0xe1" 2] by (simp add: swap_def)
  have e: "execute \<lparr>rq_start = 0, rq_type = 0x5a, rq_command = 0xe1, rq_length = 2\<rparr>
             (Some [0, 2]) None link3
     = Some (True, None,
         \<lparr>m_delay = 8, m_dir_pin = 4, m_serial_cb = True, m_prev = 108, millis = 108,
          rx = [], tx_room = 55,
          trace = [Delay 5, DigitalWrite 4 True, Flush,
                   Write [0xdd, 0x5a, 0xe1, 2] 4, Write [0, 2] 2,
                   Write [0xff, 0x1b] 2, Write [0x77] 1,
                   Flush, DigitalWrite 4 False, ReadBytes 3 [0xdd, 0, 0],
                   ReadBytes 2 [0, 0], ReadBytes 1 [0x77],
                   SerialCb [0xdd, 0, 0, 0, 0, 0x77]]\<rparr>)"
    by (simp add: execute_def p link3_def pace_def
          delay_def log_event_def
          transmit_def write_frame_def serial_write_def serial_flush_def digitalWrite_def
          request_header_bytes_def fetch_def u16_bytes_def receive_def receive_tail_def
          serial_readBytes_def fill_def isValid_def genResponseCrc_def genCrc_def swap_def
          notify_def Let_def)
  from setMosfetStatus_payload [of example_protocol 1 link3] e room show ?thesis
    by (simp add: example_protocol_def)
qed

subsection \<open>Short reads\<close>

text \<open>A stream that ends before the declared payload, checksum and stop byte are in.\<close>

lemma receive_short:
  assumes rx: "rx s = a # b # len # rest"
    and short: "length rest < unat len + 3"
    and rcv: "receive result crc stop s = Some (r, s')"
  shows "\<not> rc_ok r"
proof -
  obtain g1 s1 where r1: "serial_readBytes 3 s = (g1, s1)" by (cases "serial_readBytes 3 s")
  note f1 = serial_readBytes_fields(1,3) [OF r1]
  have g1: "g1 = [a, b, len]" and rx1: "rx s1 = rest"
    using f1 rx by simp_all
  have hb: "fill [x, y, z] [0, 0, 0] = [x, y, z]" for x y z :: u8 by (simp add: fill_def)
  obtain g2 s2 where r2: "serial_readBytes (unat len) s1 = (g2, s2)"
    by (cases "serial_readBytes (unat len) s1")
  note f2 = serial_readBytes_fields(1,3) [OF r2]
  from rcv consider
      (failed) "\<not> rc_ok r"
    | (tail0) "len = 0" "receive_tail [a, b, len] result (u16_bytes crc) [stop] s1 = Some (r, s')"
    | (tail) res where "length g2 = unat len"
        "receive_tail [a, b, len] res (u16_bytes crc) [stop] s2 = Some (r, s')"
    unfolding receive_def r1
    by (auto simp: Let_def g1 hb r2 split: if_splits option.splits)
  then show ?thesis
  proof cases
    case failed
    then show ?thesis .
  next
    case tail0
    with short rx1 have "length (rx s1) < 3" by simp
    then show ?thesis using tail0(2) by (rule receive_tail_short)
  next
    case tail
    with f2 rx1 short have "length (rx s2) < 3" by auto
    then show ?thesis using tail(2) by (rule receive_tail_short)
  qed
qed

lemma execute_short:
  assumes rx: "rx s = a # b # len # rest"
    and short: "length rest < unat len + 3"
    and ex: "execute header command result s = Some (rc, r, s')"
  shows "\<not> rc"
  using ex
proof (cases rule: execute_cases)
  case (refused h' crc)
  then show ?thesis by simp
next
  case (unsent h' crc s1)
  then show ?thesis by simp
next
  case (answered h' crc s1 rcv s2 s3)
  have "rx s1 = a # b # len # rest"
    using transmit_fields(7) [OF answered(2)] rx by (simp add: pace_fields)
  from receive_short [OF this short answered(3)] answered(5) show ?thesis by simp
qed

lemma getStatus_decodes:
  assumes "getStatus p data s = Some (rc, d', s')"
  shows "\<exists>d. execute \<lparr>rq_start = 0, rq_type = READ p, rq_command = STATUS p, rq_length = 0\<rparr>
               None (Some data) s = Some (rc, Some d, s')
           \<and> swap_fields Status_fields d = Some d'"
  using assms by (auto simp: getStatus_def Let_def split: option.splits)

lemma getCells_decodes:
  assumes "getCells p data s = Some (rc, d', s')"
  shows "\<exists>d. execute \<lparr>rq_start = 0, rq_type = READ p, rq_command = CELLS p, rq_length = 0\<rparr>
               None (Some data) s = Some (rc, Some d, s')
           \<and> swap_fields (map (\<lambda>i. 2 * i) [0..<length data div 2]) d = Some d'"
  using assms by (auto simp: getCells_def Let_def split: option.splits)

lemma getHardware_plain:
  assumes "getHardware p data s = Some (rc, d', s')"
  shows "execute \<lparr>rq_start = 0, rq_type = READ p, rq_command = HARDWARE p, rq_length = 0\<rparr>
               None (Some data) s = Some (rc, Some d', s')"
  using assms by (auto simp: getHardware_def Let_def split: option.splits)

text \<open>
  C4, as the code has it. When the stream yields the response header and then fewer bytes
  than the header declares, \<open>execute\<close> returns false, and so do \<open>getStatus\<close>,
  \<open>getCells\<close> and \<open>getHardware\<close>. \<open>getHardware\<close> hands back the record as \<open>execute\<close>
  left it. \<open>getStatus\<close> and \<open>getCells\<close> hand back that record with the two bytes of
  every 16-bit field exchanged: the byte-order conversion runs although the transaction
  failed.
\<close>

theorem short_read_fails:
  assumes "rx s = a # b # len # rest" and "length rest < unat len"
  shows "(execute header command result s = Some (rc, r, s') \<longrightarrow> \<not> rc)
     \<and> (getStatus p data s = Some (rc, d', s') \<longrightarrow>
          \<not> rc \<and> (\<exists>d. execute \<lparr>rq_start = 0, rq_type = READ p, rq_command = STATUS p,
                                  rq_length = 0\<rparr> None (Some data) s = Some (False, Some d, s')
                        \<and> swap_fields Status_fields d = Some d'))
     \<and> (getCells p data s = Some (rc, d', s') \<longrightarrow>
          \<not> rc \<and> (\<exists>d. execute \<lparr>rq_start = 0, rq_type = READ p, rq_command = CELLS p,
                                  rq_length = 0\<rparr> None (Some data) s = Some (False, Some d, s')
                        \<and> swap_fields (map (\<lambda>i. 2 * i) [0..<length data div 2]) d = Some d'))
     \<and> (getHardware p data s = Some (rc, d', s') \<longrightarrow>
          \<not> rc \<and> execute \<lparr>rq_start = 0, rq_type = READ p, rq_command = HARDWARE p,
                               rq_length = 0\<rparr> None (Some data) s = Some (False, Some d', s'))"
proof -
  from assms(2) have short: "length rest < unat len + 3" by simp
  note fails = execute_short [OF assms(1) short]
  have 1: "\<not> rc" if "execute header command result s = Some (rc, r, s')"
    using that by (rule fails)
  have 2: "\<not> rc \<and> (\<exists>d. execute \<lparr>rq_start = 0, rq_type = READ p, rq_command = STATUS p,
                                  rq_length = 0\<rparr> None (Some data) s = Some (False, Some d, s')
                        \<and> swap_fields Status_fields d = Some d')"
    if "getStatus p data s = Some (rc, d', s')"
  proof -
    from getStatus_decodes [OF that] obtain d
      where d: "execute \<lparr>rq_start = 0, rq_type = READ p, rq_command = STATUS p,
                  rq_length = 0\<rparr> None (Some data) s = Some (rc, Some d, s')"
        "swap_fields Status_fields d = Some d'"
      by blast
    from d(1) have "\<not> rc" by (rule fails)
    with d show ?thesis by auto
  qed
  have 3: "\<not> rc \<and> (\<exists>d. execute \<lparr>rq_start = 0, rq_type = READ p, rq_command = CELLS p,
                                  rq_length = 0\<rparr> None (Some data) s = Some (False, Some d, s')
                        \<and> swap_fields (map (\<lambda>i. 2 * i) [0..<length data div 2]) d = Some d')"
    if "getCells p data s = Some (rc, d', s')"
  proof -
    from getCells_decodes [OF that] obtain d
      where d: "execute \<lparr>rq_start = 0, rq_type = READ p, rq_command = CELLS p,
                  rq_length = 0\<rparr> None (Some data) s = Some (rc, Some d, s')"
        "swap_fields (map (\<lambda>i. 2 * i) [0..<length data div 2]) d = Some d'"
      by blast
    from d(1) have "\<not> rc" by (rule fails)
    with d show ?thesis by auto
  qed
  have 4: "\<not> rc \<and> execute \<lparr>rq_start = 0, rq_type = READ p, rq_command = HARDWARE p,
                               rq_length = 0\<rparr> None (Some data) s = Some (False, Some d', s')"
    if "getHardware p data s = Some (rc, d', s')"
  proof -
    note d = getHardware_plain [OF that]
    from d have "\<not> rc" by (rule fails)
    with d show ?thesis by auto
  qed
  from 1 2 3 4 show ?thesis by blast
qed

text \<open>The status read on the link whose answer stops short.\<close>

lemma short_read_run:
  "execute \<lparr>rq_start = 0, rq_type = 0xa5, rq_command = 3, rq_length = 0\<rparr>
       None (Some example_record) link_short
     = Some (False,
         Some [0x11, 2, 3, 4, 5, 6, 7, 8, 9, 10, 11, 12, 13, 14, 15, 16, 17, 18, 19, 20],
         \<lparr>m_delay = 8, m_dir_pin = 4, m_serial_cb = True, m_prev = 108, millis = 108,
          rx = [], tx_room = 57,
          trace = [Delay 5, DigitalWrite 4 True, Flush, Write [0xdd, 0xa5, 3, 0] 4,
                   Write [] 0, Write [0xff, 0xfd] 2, Write [0x77] 1, Flush,
                   DigitalWrite 4 False, ReadBytes 3 [0xdd, 0, 2], ReadBytes 2 [0x11],
                   SerialCb [0xdd, 0, 2, 0x11, 2, 0xff, 0xfd, 0x77]]\<rparr>)"
proof -
  have p: "prepareCmd \<lparr>rq_start = 0, rq_type = 0xa5, rq_command = 3, rq_length = 0\<rparr> None
             = Some (True, \<lparr>rq_start = 0xdd, rq_type = 0xa5, rq_command = 3, rq_length = 0\<rparr>,
                     0xfdff)"
    by (simp add: prepareCmd_def genRequestCrc_def genCrc_def swap_def)
  show ?thesis
    by (simp add: execute_def p link_short_def link3_def example_record_def pace_def
          delay_def log_event_def
          transmit_def write_frame_def serial_write_def serial_flush_def digitalWrite_def
          request_header_bytes_def fetch_def u16_bytes_def receive_def receive_tail_def
          serial_readBytes_def fill_def store_def isValid_def genResponseCrc_def genCrc_def
          swap_def notify_def Let_def)
qed

lemma short_read_swapped:
  "swap_fields Status_fields
       [0x11, 2, 3, 4, 5, 6, 7, 8, 9, 10, 11, 12, 13, 14, 15, 16, 17, 18, 19, 20]
     = Some [2, 0x11, 4, 3, 6, 5, 8, 7, 10, 9, 12, 11, 14, 13, 16, 15, 18, 17, 19, 20]"
  by (simp add: Status_fields_def swap_field_def)

theorem short_read_fails_witness:
  "rx link_short = 0xdd # 0 # 2 # [0x11] \<and> length [0x11 :: u8] < unat (2 :: u8)
   \<and> getStatus example_protocol example_record link_short
     = Some (False,
         [2, 0x11, 4, 3, 6, 5, 8, 7, 10, 9, 12, 11, 14, 13, 16, 15, 18, 17, 19, 20],
         \<lparr>m_delay = 8, m_dir_pin = 4, m_serial_cb = True, m_prev = 108, millis = 108,
          rx = [], tx_room = 57,
          trace = [Delay 5, DigitalWrite 4 True, Flush, Write [0xdd, 0xa5, 3, 0] 4,
                   Write [] 0, Write [0xff, 0xfd] 2, Write [0x77] 1, Flush,
                   DigitalWrite 4 False, ReadBytes 3 [0xdd, 0, 2], ReadBytes 2 [0x11],
                   SerialCb [0xdd, 0, 2, 0x11, 2, 0xff, 0xfd, 0x77]]\<rparr>)"
proof -
  let ?s' = "\<lparr>m_delay = 8, m_dir_pin = 4, m_serial_cb = True, m_prev = 108, millis = 108,
          rx = [], tx_room = 57,
          trace = [Delay 5, DigitalWrite 4 True, Flush, Write [0xdd, 0xa5, 3, 0] 4,
                   Write [] 0, Write [0xff, 0xfd] 2, Write [0x77] 1, Flush,
                   DigitalWrite 4 False, ReadBytes 3 [0xdd, 0, 2], ReadBytes 2 [0x11],
                   SerialCb [0xdd, 0, 2, 0x11, 2, 0xff, 0xfd, 0x77]]\<rparr>"
  let ?d' = "[2, 0x11, 4, 3, 6, 5, 8, 7, 10, 9, 12, 11, 14, 13, 16, 15, 18, 17, 19, 20 :: u8]"
  have h1: "rx link_short = 0xdd # 0 # 2 # [0x11]"
    by (simp add: link_short_def link3_def)
  have h2: "length [0x11 :: u8] < unat (2 :: u8)" by simp
  have g: "getStatus example_protocol example_record link_short = Some (False, ?d', ?s')"
    by (simp add: getStatus_def example_protocol_def short_read_run short_read_swapped)
  from short_read_fails [OF h1 h2, of _ _ _ False _ ?s' example_protocol example_record ?d'] g
  have "\<exists>d. execute \<lparr>rq_start = 0, rq_type = READ example_protocol,
                       rq_command = STATUS example_protocol, rq_length = 0\<rparr>
                None (Some example_record) link_short = Some (False, Some d, ?s')
           \<and> swap_fields Status_fields d = Some ?d'"
    by blast
  with h1 h2 g show ?thesis by blast
qed

text \<open>
  C4 as stated fails in its second half: on the example link whose answer stops after one
  of two declared payload bytes, \<open>execute\<close> leaves \<open>0x11\<close> in the first byte of the
  record and \<open>getStatus\<close> returns false with the bytes of the nine 16-bit fields
  exchanged.
\<close>

theorem short_read_still_converts:
  "execute \<lparr>rq_start = 0, rq_type = READ example_protocol,
             rq_command = STATUS example_protocol, rq_length = 0\<rparr>
       None (Some example_record) link_short
     = Some (False,
         Some [0x11, 2, 3, 4, 5, 6, 7, 8, 9, 10, 11, 12, 13, 14, 15, 16, 17, 18, 19, 20],
         \<lparr>m_delay = 8, m_dir_pin = 4, m_serial_cb = True, m_prev = 108, millis = 108,
          rx = [], tx_room = 57,
          trace = [Delay 5, DigitalWrite 4 True, Flush, Write [0xdd, 0xa5, 3, 0] 4,
                   Write [] 0, Write [0xff, 0xfd] 2, Write [0x77] 1, Flush,
                   DigitalWrite 4 False, ReadBytes 3 [0xdd, 0, 2], ReadBytes 2 [0x11],
                   SerialCb [0xdd, 0, 2, 0x11, 2, 0xff, 0xfd, 0x77]]\<rparr>)
   \<and> getStatus example_protocol example_record link_short
     = Some (False,
         [2, 0x11, 4, 3, 6, 5, 8, 7, 10, 9, 12, 11, 14, 13, 16, 15, 18, 17, 19, 20],
         \<lparr>m_delay = 8, m_dir_pin = 4, m_serial_cb = True, m_prev = 108, millis = 108,
          rx = [], tx_room = 57,
          trace = [Delay 5, DigitalWrite 4 True, Flush, Write [0xdd, 0xa5, 3, 0] 4,
                   Write [] 0, Write [0xff, 0xfd] 2, Write [0x77] 1, Flush,
                   DigitalWrite 4 False, ReadBytes 3 [0xdd, 0, 2], ReadBytes 2 [0x11],
                   SerialCb [0xdd, 0, 2, 0x11, 2, 0xff, 0xfd, 0x77]]\<rparr>)"
  by (simp add: getStatus_def example_protocol_def short_read_run short_read_swapped)

end
